theory Spec2Isabelle
  imports Main
begin

section \<open>Python values\<close>

text \<open>
  The pipeline of \<^verbatim>\<open>__main__.py\<close> works on dictionaries of type \<^verbatim>\<open>Dict[str, Any]\<close>.
  A value is one of the Python objects below (no floats, no bytes). A string is a list of
  characters, each standing for one code point below 256. A set is kept as the list of its
  elements in iteration order, a dictionary with string keys as an association list in
  insertion order, the first binding of a key being the effective one.
\<close>

datatype pyval =
    PNone
  | PBool bool
  | PInt int
  | PStr string
  | PList "pyval list"
  | PTuple "pyval list"
  | PSet "pyval list"
  | PDict "(string \<times> pyval) list"

datatype error = AttributeError | TypeError | KeyError

type_synonym entry = "(string \<times> pyval) list"

text \<open>Truth value of an object, as \<^verbatim>\<open>or\<close>, \<^verbatim>\<open>not\<close> and \<^verbatim>\<open>if\<close> read it.\<close>

fun truthy :: "pyval \<Rightarrow> bool" where
  "truthy PNone = False"
| "truthy (PBool b) = b"
| "truthy (PInt i) = (i \<noteq> 0)"
| "truthy (PStr s) = (s \<noteq> [])"
| "truthy (PList xs) = (xs \<noteq> [])"
| "truthy (PTuple xs) = (xs \<noteq> [])"
| "truthy (PSet xs) = (xs \<noteq> [])"
| "truthy (PDict kvs) = (kvs \<noteq> [])"

definition py_or :: "pyval \<Rightarrow> pyval \<Rightarrow> pyval" where
  "py_or a b = (if truthy a then a else b)"

text \<open>\<^verbatim>\<open>d.get(k)\<close>: the value bound to the key, \<^verbatim>\<open>None\<close> when the key is missing.\<close>

definition dict_get :: "entry \<Rightarrow> string \<Rightarrow> pyval" where
  "dict_get d k = (case map_of d k of None \<Rightarrow> PNone | Some v \<Rightarrow> v)"

subsection \<open>Strings\<close>

text \<open>\<^verbatim>\<open>str.lower\<close> on code points below 256: A-Z and the Latin-1 capitals move up by 32.\<close>

definition lower_char :: "char \<Rightarrow> char" where
  "lower_char c =
     (let n = (of_char c :: nat)
      in if (65 \<le> n \<and> n \<le> 90) \<or> (192 \<le> n \<and> n \<le> 222 \<and> n \<noteq> 215)
         then char_of (n + 32) else c)"

definition py_lower :: "string \<Rightarrow> string" where
  "py_lower s = map lower_char s"

text \<open>The characters \<^verbatim>\<open>str.strip()\<close> removes: \<^verbatim>\<open>str.isspace\<close> below 256.\<close>

definition py_isspace :: "char \<Rightarrow> bool" where
  "py_isspace c =
     (let n = (of_char c :: nat)
      in (9 \<le> n \<and> n \<le> 13) \<or> (28 \<le> n \<and> n \<le> 32) \<or> n = 133 \<or> n = 160)"

definition lstrip_by :: "(char \<Rightarrow> bool) \<Rightarrow> string \<Rightarrow> string" where
  "lstrip_by P s = dropWhile P s"

definition rstrip_by :: "(char \<Rightarrow> bool) \<Rightarrow> string \<Rightarrow> string" where
  "rstrip_by P s = rev (dropWhile P (rev s))"

definition strip_by :: "(char \<Rightarrow> bool) \<Rightarrow> string \<Rightarrow> string" where
  "strip_by P s = rstrip_by P (lstrip_by P s)"

definition py_strip :: "string \<Rightarrow> string" where
  "py_strip s = strip_by py_isspace s"

definition startswith :: "string \<Rightarrow> string \<Rightarrow> bool" where
  "startswith s p = (take (length p) s = p)"

definition endswith :: "string \<Rightarrow> string \<Rightarrow> bool" where
  "endswith s p = (length p \<le> length s \<and> drop (length s - length p) s = p)"

text \<open>\<^verbatim>\<open>sep.join(xs)\<close>.\<close>

fun join_with :: "string \<Rightarrow> string list \<Rightarrow> string" where
  "join_with sep [] = []"
| "join_with sep [x] = x"
| "join_with sep (x # y # ys) = x @ sep @ join_with sep (y # ys)"

text \<open>\<^verbatim>\<open>s.split(c)\<close> with a one-character separator: never empty, \<^verbatim>\<open>"".split("/") == [""]\<close>.\<close>

fun split_on :: "char \<Rightarrow> string \<Rightarrow> string list" where
  "split_on c [] = [[]]"
| "split_on c (x # xs) =
     (if x = c then [] # split_on c xs
      else (case split_on c xs of [] \<Rightarrow> [[x]] | y # ys \<Rightarrow> (x # y) # ys))"

text \<open>\<^verbatim>\<open>s.replace("'", "''")\<close>.\<close>

definition double_quotes :: "string \<Rightarrow> string" where
  "double_quotes s = concat (map (\<lambda>c. if c = CHR 0x27 then [CHR 0x27, CHR 0x27] else [c]) s)"

subsection \<open>Decimal rendering and \<^verbatim>\<open>str()\<close>\<close>

definition digit_char :: "nat \<Rightarrow> char" where
  "digit_char d = char_of (48 + d)"

function show_nat :: "nat \<Rightarrow> string" where
  "show_nat n = (if n < 10 then [digit_char n] else show_nat (n div 10) @ [digit_char (n mod 10)])"
  by pat_completeness auto
termination
  by (relation "measure id") auto

declare show_nat.simps [simp del]

definition show_int :: "int \<Rightarrow> string" where
  "show_int i = (if i < 0 then CHR ''-'' # show_nat (nat (- i)) else show_nat (nat i))"

text \<open>
  \<^verbatim>\<open>repr\<close> of a string: double quotes when the text has a single quote and no double
  quote, single quotes otherwise; backslash, the chosen quote, tab, newline and carriage
  return escaped, other unprintable code points as \<^verbatim>\<open>\xNN\<close>.
\<close>

definition hex_digit :: "nat \<Rightarrow> char" where
  "hex_digit d = (if d < 10 then char_of (48 + d) else char_of (87 + d))"

definition printable :: "char \<Rightarrow> bool" where
  "printable c = (let n = (of_char c :: nat) in (32 \<le> n \<and> n \<le> 126) \<or> (161 \<le> n \<and> n \<noteq> 173))"

definition repr_char :: "char \<Rightarrow> char \<Rightarrow> string" where
  "repr_char quote c =
     (if c = quote \<or> c = CHR 0x5C then [CHR 0x5C, c]
      else if c = CHR 0x09 then [CHR 0x5C, CHR ''t'']
      else if c = CHR 0x0A then [CHR 0x5C, CHR ''n'']
      else if c = CHR 0x0D then [CHR 0x5C, CHR ''r'']
      else if printable c then [c]
      else [CHR 0x5C, CHR ''x'', hex_digit ((of_char c :: nat) div 16),
            hex_digit ((of_char c :: nat) mod 16)])"

definition repr_str :: "string \<Rightarrow> string" where
  "repr_str s =
     (let quote = (if CHR 0x27 \<in> set s \<and> CHR 0x22 \<notin> set s then CHR 0x22 else CHR 0x27)
      in [quote] @ concat (map (repr_char quote) s) @ [quote])"

fun py_repr :: "pyval \<Rightarrow> string" where
  "py_repr PNone = ''None''"
| "py_repr (PBool b) = (if b then ''True'' else ''False'')"
| "py_repr (PInt i) = show_int i"
| "py_repr (PStr s) = repr_str s"
| "py_repr (PList xs) = ''['' @ join_with '', '' (map py_repr xs) @ '']''"
| "py_repr (PTuple xs) =
     (case xs of [x] \<Rightarrow> ''('' @ py_repr x @ '',)''
      | _ \<Rightarrow> ''('' @ join_with '', '' (map py_repr xs) @ '')'')"
| "py_repr (PSet xs) =
     (if xs = [] then ''set()'' else ''{'' @ join_with '', '' (map py_repr xs) @ ''}'')"
| "py_repr (PDict kvs) =
     ''{'' @ join_with '', '' (map (\<lambda>kv. repr_str (fst kv) @ '': '' @ py_repr (snd kv)) kvs) @ ''}''"

text \<open>
  \<^verbatim>\<open>str()\<close>: the text itself for a string, \<^verbatim>\<open>repr\<close> for everything else. The
  function is total: the limit of 4300 digits that Python 3.11 and later put on the
  conversion of an integer, and the recursion limit on deeply nested containers, are
  not modelled.
\<close>

definition py_str :: "pyval \<Rightarrow> string" where
  "py_str v = (case v of PStr s \<Rightarrow> s | _ \<Rightarrow> py_repr v)"

section \<open>Grouping logic\<close>

definition CATEGORY_ORDER :: "string list" where
  "CATEGORY_ORDER = [''configuration'', ''artifacts'', ''docs'', ''licenses'', ''general'']"

text \<open>
  \<^verbatim>\<open>_category_for\<close>: the flags are read only from a list or a tuple; every other
  value gives the empty set.
\<close>

definition flag_set :: "entry \<Rightarrow> string set" where
  "flag_set e =
     (case py_or (dict_get e ''flags'') (PList []) of
        PList xs \<Rightarrow> set (map (\<lambda>x. py_lower (py_str x)) xs)
      | PTuple xs \<Rightarrow> set (map (\<lambda>x. py_lower (py_str x)) xs)
      | _ \<Rightarrow> {})"

definition category_for :: "entry \<Rightarrow> string" where
  "category_for e =
     (let fset = flag_set e
      in if ''config'' \<in> fset then ''configuration''
         else if ''license'' \<in> fset then ''licenses''
         else if ''doc'' \<in> fset then ''docs''
         else (let ftype = py_lower (py_str (py_or (dict_get e ''type'') (PStr '''')))
               in if ftype = ''link'' then ''general'' else ''artifacts''))"

subsection \<open>Key sanitizing\<close>

definition is_key_char :: "char \<Rightarrow> bool" where
  "is_key_char ch =
     (let n = (of_char ch :: nat) in (97 \<le> n \<and> n \<le> 122) \<or> (48 \<le> n \<and> n \<le> 57))"

text \<open>
  The character loop of \<^verbatim>\<open>_sanitize_key\<close>, with its two variables
  \<^verbatim>\<open>out_chars\<close> and \<^verbatim>\<open>prev_underscore\<close>.
\<close>

fun collapse :: "string \<Rightarrow> string \<Rightarrow> bool \<Rightarrow> string" where
  "collapse [] out_chars prev_underscore = out_chars"
| "collapse (ch # s) out_chars prev_underscore =
     (if is_key_char ch then collapse s (out_chars @ [ch]) False
      else if \<not> prev_underscore then collapse s (out_chars @ ''_'') True
      else collapse s out_chars prev_underscore)"

definition base_key :: "string \<Rightarrow> string" where
  "base_key path =
     (let s = py_strip path;
          s = (if startswith s ''/'' then drop 1 s else s);
          s = py_lower s;
          key = strip_by (\<lambda>c. c = CHR ''_'') (collapse s [] False)
      in if key = [] then ''root'' else key)"

definition candidate :: "string \<Rightarrow> nat \<Rightarrow> string" where
  "candidate key i = key @ ''_'' @ show_nat i"

text \<open>Reading a decimal numeral back; it shows that no two numbers share a rendering.\<close>

definition read_nat :: "string \<Rightarrow> nat" where
  "read_nat s = foldl (\<lambda>acc c. 10 * acc + ((of_char c :: nat) - 48)) 0 s"

lemma read_show_nat: "read_nat (show_nat n) = n"
proof (induction n rule: show_nat.induct)
  case (1 n)
  show ?case
  proof (cases "n < 10")
    case True
    then have "(of_char (digit_char n) :: nat) = 48 + n"
      by (simp add: digit_char_def)
    with True show ?thesis
      by (simp add: show_nat.simps [of n] read_nat_def)
  next
    case False
    have d: "(of_char (digit_char (n mod 10)) :: nat) = 48 + n mod 10"
      by (simp add: digit_char_def)
    from False have "read_nat (show_nat (n div 10)) = n div 10"
      using "1.IH" by simp
    with False d show ?thesis
      by (simp add: show_nat.simps [of n] read_nat_def)
  qed
qed

lemma show_nat_inj: "show_nat m = show_nat n \<Longrightarrow> m = n"
  by (metis read_show_nat)

lemma candidate_inj: "candidate key m = candidate key n \<Longrightarrow> m = n"
  by (simp add: candidate_def show_nat_inj)

lemma finite_taken: "finite {j. candidate key j \<in> set used}"
proof -
  have "inj (candidate key)"
    by (rule injI) (rule candidate_inj)
  then have "finite (candidate key -` set used)"
    by (rule finite_vimageI [OF finite_set])
  then show ?thesis
    by (simp add: vimage_def)
qed

text \<open>
  The \<^verbatim>\<open>while True\<close> loop of \<^verbatim>\<open>_sanitize_key\<close>: the first suffix from
  \<open>i\<close> on whose candidate is not in \<open>used\<close>. The set \<open>used\<close> is a list of its
  elements in some order; the code only tests membership and adds.
\<close>

function next_free :: "string \<Rightarrow> string list \<Rightarrow> nat \<Rightarrow> string" where
  "next_free key used i =
     (if candidate key i \<notin> set used then candidate key i else next_free key used (i + 1))"
  by pat_completeness auto
termination
proof (relation "measure (\<lambda>(key, used, i). card {j. i \<le> j \<and> candidate key j \<in> set used})")
  show "wf (measure (\<lambda>(key, used, i). card {j. i \<le> j \<and> candidate key j \<in> set used}))"
    by simp
next
  fix key :: string and used :: "string list" and i :: nat
  assume "\<not> candidate key i \<notin> set used"
  then have mem: "candidate key i \<in> set used" by simp
  have fin: "finite {j. i \<le> j \<and> candidate key j \<in> set used}"
    by (rule finite_subset [OF _ finite_taken [of key used]]) auto
  have "i \<in> {j. i \<le> j \<and> candidate key j \<in> set used}"
    and "i \<notin> {j. i + 1 \<le> j \<and> candidate key j \<in> set used}"
    using mem by simp_all
  moreover have "{j. i + 1 \<le> j \<and> candidate key j \<in> set used}
          \<subseteq> {j. i \<le> j \<and> candidate key j \<in> set used}"
    by auto
  ultimately have "{j. i + 1 \<le> j \<and> candidate key j \<in> set used}
          \<subset> {j. i \<le> j \<and> candidate key j \<in> set used}"
    by blast
  then have "card {j. i + 1 \<le> j \<and> candidate key j \<in> set used}
               < card {j. i \<le> j \<and> candidate key j \<in> set used}"
    by (rule psubset_card_mono [OF fin])
  then show "((key, used, i + 1), (key, used, i))
               \<in> measure (\<lambda>(key, used, i). card {j. i \<le> j \<and> candidate key j \<in> set used})"
    by simp
qed

declare next_free.simps [simp del]

text \<open>
  \<^verbatim>\<open>_sanitize_key(path, used)\<close>: the key and the updated set. A \<^verbatim>\<open>path\<close> that is
  true and not a string has no \<^verbatim>\<open>strip\<close>.
\<close>

definition sanitize_key :: "pyval \<Rightarrow> string list \<Rightarrow> error + (string \<times> string list)" where
  "sanitize_key path used =
     (case py_or path (PStr '''') of
        PStr p \<Rightarrow>
          (let key = base_key p
           in if key \<notin> set used then Inr (key, key # used)
              else (let c = next_free key used 2 in Inr (c, c # used)))
      | _ \<Rightarrow> Inl AttributeError)"

subsection \<open>State and link source\<close>

text \<open>\<^verbatim>\<open>_state_from_type\<close>: \<^verbatim>\<open>(ftype or "").lower()\<close> needs a string.\<close>

definition state_from_type :: "pyval \<Rightarrow> error + string" where
  "state_from_type ftype =
     (case py_or ftype (PStr '''') of
        PStr s \<Rightarrow>
          (let t = py_lower s
           in if t = ''dir'' \<or> t = ''directory'' then Inr ''directory''
              else if t = ''link'' \<or> t = ''symlink'' then Inr ''link''
              else Inr ''file'')
      | _ \<Rightarrow> Inl AttributeError)"

text \<open>
  The three functions of the standard module \<^verbatim>\<open>posixpath\<close> that
  \<^verbatim>\<open>_abs_link_src\<close> calls, on strings: \<^verbatim>\<open>dirname\<close>, \<^verbatim>\<open>join\<close> with two
  arguments and \<^verbatim>\<open>normpath\<close>.
\<close>

definition rfind :: "char \<Rightarrow> string \<Rightarrow> int" where
  "rfind c s =
     (if c \<in> set s then int (length s) - 1 - int (length (takeWhile (\<lambda>x. x \<noteq> c) (rev s)))
      else - 1)"

definition posix_dirname :: "string \<Rightarrow> string" where
  "posix_dirname p =
     (let i = rfind CHR ''/'' p + 1;
          head = take (nat i) p
      in if head \<noteq> [] \<and> head \<noteq> replicate (length head) CHR ''/''
         then rstrip_by (\<lambda>c. c = CHR ''/'') head else head)"

definition posix_join :: "string \<Rightarrow> string \<Rightarrow> string" where
  "posix_join a b =
     (if startswith b ''/'' then b
      else if a = [] \<or> endswith a ''/'' then a @ b
      else a @ ''/'' @ b)"

definition initial_slashes :: "string \<Rightarrow> nat" where
  "initial_slashes path =
     (if startswith path ''/''
      then (if startswith path ''//'' \<and> \<not> startswith path ''///'' then 2 else 1)
      else 0)"

definition norm_step :: "nat \<Rightarrow> string list \<Rightarrow> string \<Rightarrow> string list" where
  "norm_step initial new_comps component =
     (if component = [] \<or> component = ''.'' then new_comps
      else if component \<noteq> ''..'' \<or> (initial = 0 \<and> new_comps = [])
                \<or> (new_comps \<noteq> [] \<and> last new_comps = ''..'')
           then new_comps @ [component]
      else if new_comps \<noteq> [] then butlast new_comps
      else new_comps)"

definition posix_normpath :: "string \<Rightarrow> string" where
  "posix_normpath path =
     (if path = [] then ''.''
      else (let initial = initial_slashes path;
                comps = foldl (norm_step initial) [] (split_on CHR ''/'' path);
                p = join_with ''/'' comps;
                p = (if initial \<noteq> 0 then replicate initial CHR ''/'' @ p else p)
            in if p = [] then ''.'' else p))"

text \<open>
  The directory against which a relative target is resolved
  (lines 163 to 165 of \<^verbatim>\<open>__main__.py\<close>).
\<close>

definition link_base_dir :: "pyval \<Rightarrow> string" where
  "link_base_dir link_path =
     (let lp = py_str link_path;
          d = posix_dirname (if lp = [] then ''/'' else lp);
          base_dir = (if d = [] then ''/'' else d)
      in if \<not> startswith base_dir ''/''
         then ''/'' @ lstrip_by (\<lambda>c. c = CHR ''/'') base_dir else base_dir)"

text \<open>\<^verbatim>\<open>_abs_link_src\<close>; the result \<open>None\<close> is Python's \<^verbatim>\<open>None\<close>.\<close>

definition abs_link_src :: "pyval \<Rightarrow> pyval \<Rightarrow> string option" where
  "abs_link_src linkto link_path =
     (if \<not> truthy linkto then None
      else (let lt = py_strip (py_str linkto)
            in if startswith lt ''/'' then Some (posix_normpath lt)
               else Some (posix_normpath (posix_join (link_base_dir link_path) lt))))"

subsection \<open>Items\<close>

type_synonym item = "(string \<times> pyval) list"

text \<open>
  Assignment \<^verbatim>\<open>d[k] = v\<close> on an ordered dictionary: a present key keeps its place,
  a new key goes to the end.
\<close>

fun od_set :: "(string \<times> 'v) list \<Rightarrow> string \<Rightarrow> 'v \<Rightarrow> (string \<times> 'v) list" where
  "od_set [] k v = [(k, v)]"
| "od_set (p # ps) k v = (if fst p = k then (k, v) # ps else p # od_set ps k v)"

definition build_item :: "entry \<Rightarrow> error + item" where
  "build_item e =
     (let path_val = py_or (dict_get e ''path'') (PStr '''');
          item = od_set [] ''follow'' (PBool False);
          item = od_set item ''force'' (PBool True);
          item = od_set item ''group'' (py_or (dict_get e ''group'') (PStr ''root''));
          mode = dict_get e ''mode'';
          item = od_set item ''mode'' (PStr (if mode \<noteq> PNone then py_str mode else ''''));
          item = od_set item ''owner'' (py_or (dict_get e ''owner'') (PStr ''root''));
          item = od_set item ''path'' path_val
      in case state_from_type (dict_get e ''type'') of
           Inl err \<Rightarrow> Inl err
         | Inr state \<Rightarrow>
             (let item = od_set item ''state'' (PStr state)
              in if state = ''link''
                 then (case abs_link_src (dict_get e ''linkto'') path_val of
                         None \<Rightarrow> Inr item
                       | Some src_abs \<Rightarrow>
                           (if src_abs \<noteq> [] then Inr (od_set item ''src'' (PStr src_abs))
                            else Inr item))
                 else Inr item))"

subsection \<open>Merging\<close>

text \<open>Whether an object can be a member of a set, and the key under which a set holds it
  (\<^verbatim>\<open>True == 1\<close> and \<^verbatim>\<open>False == 0\<close>).\<close>

fun hashable :: "pyval \<Rightarrow> bool" where
  "hashable (PList xs) = False"
| "hashable (PSet xs) = False"
| "hashable (PDict kvs) = False"
| "hashable (PTuple xs) = list_all hashable xs"
| "hashable v = True"

fun hash_key :: "pyval \<Rightarrow> pyval" where
  "hash_key (PBool b) = PInt (if b then 1 else 0)"
| "hash_key (PTuple xs) = PTuple (map hash_key xs)"
| "hash_key v = v"

text \<open>What a \<^verbatim>\<open>for\<close> loop over an object visits.\<close>

fun py_iter :: "pyval \<Rightarrow> error + pyval list" where
  "py_iter (PList xs) = Inr xs"
| "py_iter (PTuple xs) = Inr xs"
| "py_iter (PSet xs) = Inr xs"
| "py_iter (PStr s) = Inr (map (\<lambda>c. PStr [c]) s)"
| "py_iter (PDict kvs) = Inr (map (\<lambda>kv. PStr (fst kv)) kvs)"
| "py_iter v = Inl TypeError"

text \<open>The inner loop of \<^verbatim>\<open>_merge_files_from_packages\<close> over the files of one package.\<close>

fun merge_files :: "pyval list \<Rightarrow> pyval list \<Rightarrow> entry list
                      \<Rightarrow> error + (pyval list \<times> entry list)" where
  "merge_files [] seen out = Inr (seen, out)"
| "merge_files (f # fs) seen out =
     (case f of
        PDict d \<Rightarrow>
          (let p = dict_get d ''path''
           in if \<not> truthy p then merge_files fs seen out
              else if \<not> hashable p then Inl TypeError
              else if hash_key p \<in> set seen then merge_files fs seen out
              else merge_files fs (hash_key p # seen) (out @ [d]))
      | _ \<Rightarrow> Inl AttributeError)"

fun merge_pkgs :: "entry list \<Rightarrow> pyval list \<Rightarrow> entry list
                     \<Rightarrow> error + (pyval list \<times> entry list)" where
  "merge_pkgs [] seen out = Inr (seen, out)"
| "merge_pkgs (pkg # pkgs) seen out =
     (case py_iter (py_or (dict_get pkg ''files'') (PList [])) of
        Inl err \<Rightarrow> Inl err
      | Inr fs \<Rightarrow>
          (case merge_files fs seen out of
             Inl err \<Rightarrow> Inl err
           | Inr (seen', out') \<Rightarrow> merge_pkgs pkgs seen' out'))"

definition merge_files_from_packages :: "entry list \<Rightarrow> error + entry list" where
  "merge_files_from_packages pkg_objs =
     (case merge_pkgs pkg_objs [] [] of Inl err \<Rightarrow> Inl err | Inr (seen, out) \<Rightarrow> Inr out)"

subsection \<open>Document assembly\<close>

type_synonym catmap = "(string \<times> item) list"
type_synonym grouping = "(string \<times> catmap) list"
type_synonym document = "(string \<times> grouping) list"

text \<open>Subscription \<^verbatim>\<open>d[k]\<close>, and a dictionary built from a sequence of pairs.\<close>

definition od_get :: "(string \<times> 'v) list \<Rightarrow> string \<Rightarrow> error + 'v" where
  "od_get d k = (case map_of d k of None \<Rightarrow> Inl KeyError | Some v \<Rightarrow> Inr v)"

definition od_of_pairs :: "(string \<times> 'v) list \<Rightarrow> (string \<times> 'v) list" where
  "od_of_pairs kvs = foldl (\<lambda>d kv. od_set d (fst kv) (snd kv)) [] kvs"

text \<open>
  The loop of \<^verbatim>\<open>_build_yaml_data\<close>, with the shared set \<^verbatim>\<open>used_keys\<close> and the
  dictionary \<^verbatim>\<open>grouped\<close> as state.
\<close>

fun build_loop :: "entry list \<Rightarrow> string list \<Rightarrow> grouping \<Rightarrow> error + (string list \<times> grouping)" where
  "build_loop [] used_keys grouped = Inr (used_keys, grouped)"
| "build_loop (f # files) used_keys grouped =
     (let cat = category_for f
      in case sanitize_key (py_or (dict_get f ''path'') (PStr '''')) used_keys of
           Inl err \<Rightarrow> Inl err
         | Inr (key, used_keys') \<Rightarrow>
             (case build_item f of
                Inl err \<Rightarrow> Inl err
              | Inr item \<Rightarrow>
                  (case od_get grouped cat of
                     Inl err \<Rightarrow> Inl err
                   | Inr m \<Rightarrow>
                       build_loop files used_keys' (od_set grouped cat (od_set m key item)))))"

text \<open>The pairs \<^verbatim>\<open>(k, grouped[k]) for k in _CATEGORY_ORDER\<close>.\<close>

fun category_pairs :: "string list \<Rightarrow> grouping \<Rightarrow> error + grouping" where
  "category_pairs [] grouped = Inr []"
| "category_pairs (k # ks) grouped =
     (case od_get grouped k of
        Inl err \<Rightarrow> Inl err
      | Inr m \<Rightarrow>
          (case category_pairs ks grouped of
             Inl err \<Rightarrow> Inl err
           | Inr r \<Rightarrow> Inr ((k, m) # r)))"

text \<open>
  Lines 219 to 227 of \<^verbatim>\<open>_build_yaml_data\<close>, from given values of
  \<^verbatim>\<open>used_keys\<close> and \<^verbatim>\<open>grouped\<close>; the function itself starts from the empty set
  and from one empty ordered dictionary per category.
\<close>

definition assemble_from :: "string list \<Rightarrow> grouping \<Rightarrow> entry list \<Rightarrow> error + document" where
  "assemble_from used_keys grouped files =
     (case build_loop files used_keys grouped of
        Inl err \<Rightarrow> Inl err
      | Inr (used_keys', grouped') \<Rightarrow>
          (case category_pairs CATEGORY_ORDER grouped' of
             Inl err \<Rightarrow> Inl err
           | Inr pairs \<Rightarrow> Inr (od_set [] ''files'' (od_of_pairs pairs))))"

definition build_yaml_data :: "entry list \<Rightarrow> error + document" where
  "build_yaml_data files =
     assemble_from [] (od_of_pairs (map (\<lambda>k. (k, [])) CATEGORY_ORDER)) files"

section \<open>YAML emission: the built-in emitter\<close>

text \<open>
  The part of \<^verbatim>\<open>_yaml_dump\<close> after the attempt with PyYAML (lines 250 to 279): the
  lines it collects and the text it writes.
\<close>

definition q :: "pyval \<Rightarrow> string" where
  "q v =
     (case v of
        PBool b \<Rightarrow> (if b then ''true'' else ''false'')
      | PNone \<Rightarrow> [CHR 0x27, CHR 0x27]
      | _ \<Rightarrow> [CHR 0x27] @ double_quotes (py_str v) @ [CHR 0x27])"

definition PROP_ORDER :: "string list" where
  "PROP_ORDER = [''follow'', ''force'', ''group'', ''mode'', ''owner'', ''path'', ''state'', ''src'']"

definition prop_line :: "string \<Rightarrow> pyval \<Rightarrow> string" where
  "prop_line prop_key v = ''      '' @ prop_key @ '': '' @ q v"

fun prop_loop :: "string list \<Rightarrow> item \<Rightarrow> string list \<Rightarrow> string list" where
  "prop_loop [] props lines = lines"
| "prop_loop (prop_key # ks) props lines =
     (if map_of props prop_key \<noteq> None \<and> dict_get props prop_key \<notin> {PNone, PStr ''''}
      then prop_loop ks props (lines @ [prop_line prop_key (dict_get props prop_key)])
      else if prop_key \<in> {''follow'', ''force''} \<and> map_of props prop_key \<noteq> None
      then prop_loop ks props (lines @ [prop_line prop_key (dict_get props prop_key)])
      else prop_loop ks props lines)"

fun item_loop :: "catmap \<Rightarrow> string list \<Rightarrow> string list" where
  "item_loop [] lines = lines"
| "item_loop ((key, props) # items) lines =
     item_loop items (prop_loop PROP_ORDER props (lines @ [''    '' @ key @ '':'']))"

fun category_loop :: "string list \<Rightarrow> grouping \<Rightarrow> string list \<Rightarrow> string list" where
  "category_loop [] files lines = lines"
| "category_loop (cat # cats) files lines =
     (let lines = lines @ [''  '' @ cat @ '':''];
          items = (case map_of files cat of None \<Rightarrow> [] | Some m \<Rightarrow> m)
      in if items = [] then category_loop cats files lines
         else category_loop cats files (item_loop items lines))"

definition yaml_lines :: "document \<Rightarrow> string list" where
  "yaml_lines data =
     category_loop CATEGORY_ORDER (case map_of data ''files'' of None \<Rightarrow> [] | Some f \<Rightarrow> f)
       [''files:'']"

definition yaml_dump :: "document \<Rightarrow> string" where
  "yaml_dump data = join_with [CHR 0x0A] (yaml_lines data) @ [CHR 0x0A]"

section \<open>Classification\<close>

lemma lower_config: "py_lower ''config'' = ''config''"
  by (simp add: py_lower_def lower_char_def)

lemma flag_set_list:
  "dict_get e ''flags'' = PList xs \<Longrightarrow> flag_set e = (\<lambda>x. py_lower (py_str x)) ` set xs"
  by (cases xs) (simp_all add: flag_set_def py_or_def)

lemma flag_set_tuple:
  "dict_get e ''flags'' = PTuple xs \<Longrightarrow> flag_set e = (\<lambda>x. py_lower (py_str x)) ` set xs"
  by (cases xs) (simp_all add: flag_set_def py_or_def)

lemma flag_set_other:
  assumes "\<And>xs. dict_get e ''flags'' \<noteq> PList xs" and "\<And>xs. dict_get e ''flags'' \<noteq> PTuple xs"
  shows "flag_set e = {}"
  using assms by (cases "dict_get e ''flags''") (auto simp: flag_set_def py_or_def)

lemma category_for_no_flags:
  "flag_set e = {} \<Longrightarrow>
   category_for e =
     (if py_lower (py_str (py_or (dict_get e ''type'') (PStr ''''))) = ''link''
      then ''general'' else ''artifacts'')"
  by (simp add: category_for_def)

text \<open>
  C5. Classification goes through its tests in a fixed order and the first that holds
  decides: the flag config gives configuration, else license gives licenses, else doc
  gives docs, else the lower-cased type link gives general, else artifacts. A record
  with the flags config and doc is configuration, one with no flags and type link is
  general, one with no flags and type file is artifacts.
\<close>

theorem category_for_priority:
  "category_for e =
     (if ''config'' \<in> flag_set e then ''configuration''
      else if ''license'' \<in> flag_set e then ''licenses''
      else if ''doc'' \<in> flag_set e then ''docs''
      else if py_lower (py_str (py_or (dict_get e ''type'') (PStr ''''))) = ''link''
      then ''general''
      else ''artifacts'')
   \<and> category_for [(''flags'', PList [PStr ''config'', PStr ''doc''])] = ''configuration''
   \<and> category_for [(''flags'', PList [PStr ''doc'', PStr ''config'']), (''type'', PStr ''link'')]
         = ''configuration''
   \<and> category_for [(''flags'', PList []), (''type'', PStr ''link'')] = ''general''
   \<and> category_for [(''flags'', PList []), (''type'', PStr ''file'')] = ''artifacts''"
proof -
  have general: "category_for e =
     (if ''config'' \<in> flag_set e then ''configuration''
      else if ''license'' \<in> flag_set e then ''licenses''
      else if ''doc'' \<in> flag_set e then ''docs''
      else if py_lower (py_str (py_or (dict_get e ''type'') (PStr ''''))) = ''link''
      then ''general''
      else ''artifacts'')"
    by (simp add: category_for_def Let_def)
  have a: "category_for [(''flags'', PList [PStr ''config'', PStr ''doc''])] = ''configuration''"
    by code_simp
  have b: "category_for [(''flags'', PList [PStr ''doc'', PStr ''config'']), (''type'', PStr ''link'')]
         = ''configuration''"
    by code_simp
  have c: "category_for [(''flags'', PList []), (''type'', PStr ''link'')] = ''general''"
    by code_simp
  have d: "category_for [(''flags'', PList []), (''type'', PStr ''file'')] = ''artifacts''"
    by code_simp
  from general a b c d show ?thesis by blast
qed

theorem category_for_priority_witness:
  "category_for [(''flags'', PList [PStr ''License'', PStr ''doc'']), (''type'', PStr ''link'')]
     = ''licenses''"
proof -
  have "''config'' \<notin> flag_set [(''flags'', PList [PStr ''License'', PStr ''doc'']), (''type'', PStr ''link'')]"
    by code_simp
  moreover have "''license'' \<in> flag_set [(''flags'', PList [PStr ''License'', PStr ''doc'']), (''type'', PStr ''link'')]"
    by code_simp
  ultimately show ?thesis
    using category_for_priority
      [of "[(''flags'', PList [PStr ''License'', PStr ''doc'']), (''type'', PStr ''link'')]"]
    by simp
qed

text \<open>
  C8, as the code has it. The flags are read from a list or a tuple only. Any other
  value of the field, a set included, counts as the empty flag set, so that a record
  whose flags are a set is classified by its type alone, whatever the set holds; a list
  or tuple that holds the tag config gives configuration.
\<close>

theorem category_for_flags_container:
  "((\<forall>xs. dict_get e ''flags'' \<noteq> PList xs) \<and> (\<forall>xs. dict_get e ''flags'' \<noteq> PTuple xs) \<longrightarrow>
      flag_set e = {} \<and>
      category_for e =
        (if py_lower (py_str (py_or (dict_get e ''type'') (PStr ''''))) = ''link''
         then ''general'' else ''artifacts''))
   \<and> ((\<exists>xs. (dict_get e ''flags'' = PList xs \<or> dict_get e ''flags'' = PTuple xs)
             \<and> PStr ''config'' \<in> set xs) \<longrightarrow>
      category_for e = ''configuration'')"
proof (intro conjI impI)
  assume h: "(\<forall>xs. dict_get e ''flags'' \<noteq> PList xs) \<and> (\<forall>xs. dict_get e ''flags'' \<noteq> PTuple xs)"
  then show "flag_set e = {}"
    by (intro flag_set_other) simp_all
  then show "category_for e =
        (if py_lower (py_str (py_or (dict_get e ''type'') (PStr ''''))) = ''link''
         then ''general'' else ''artifacts'')"
    by (rule category_for_no_flags)
next
  assume "\<exists>xs. (dict_get e ''flags'' = PList xs \<or> dict_get e ''flags'' = PTuple xs)
             \<and> PStr ''config'' \<in> set xs"
  then obtain xs where c: "dict_get e ''flags'' = PList xs \<or> dict_get e ''flags'' = PTuple xs"
    and m: "PStr ''config'' \<in> set xs" by blast
  from c have "flag_set e = (\<lambda>x. py_lower (py_str x)) ` set xs"
    by (auto simp: flag_set_list flag_set_tuple)
  moreover have "py_lower (py_str (PStr ''config'')) = ''config''"
    by (simp add: py_str_def lower_config)
  ultimately have "''config'' \<in> flag_set e"
    using m by (metis imageI)
  then show "category_for e = ''configuration''"
    by (simp add: category_for_def)
qed

theorem category_for_flags_container_witness:
  "category_for [(''flags'', PSet [PStr ''config'']), (''type'', PStr ''file'')] = ''artifacts''
   \<and> category_for [(''flags'', PTuple [PStr ''config'']), (''type'', PStr ''file'')] = ''configuration''"
proof -
  have g1: "dict_get [(''flags'', PSet [PStr ''config'']), (''type'', PStr ''file'')] ''flags''
              = PSet [PStr ''config'']"
    by (simp add: dict_get_def)
  have t1: "py_lower (py_str (py_or (dict_get [(''flags'', PSet [PStr ''config'']), (''type'', PStr ''file'')] ''type'') (PStr ''''))) \<noteq> ''link''"
    by code_simp
  have g2: "dict_get [(''flags'', PTuple [PStr ''config'']), (''type'', PStr ''file'')] ''flags''
              = PTuple [PStr ''config'']"
    by (simp add: dict_get_def)
  have "category_for [(''flags'', PSet [PStr ''config'']), (''type'', PStr ''file'')] = ''artifacts''"
    using category_for_flags_container
      [of "[(''flags'', PSet [PStr ''config'']), (''type'', PStr ''file'')]"] g1 t1
    by simp
  moreover have "category_for [(''flags'', PTuple [PStr ''config'']), (''type'', PStr ''file'')] = ''configuration''"
    using category_for_flags_container
      [of "[(''flags'', PTuple [PStr ''config'']), (''type'', PStr ''file'')]"] g2
    by simp
  ultimately show ?thesis by simp
qed

theorem category_for_set_flags_counterexample:
  "category_for [(''flags'', PSet [PStr ''config''])] \<noteq> ''configuration''"
  by code_simp

section \<open>Key sanitizing\<close>

lemma next_free_fresh: "next_free key used i \<notin> set used"
proof (induction key used i rule: next_free.induct)
  case (1 key used i)
  show ?case
  proof (cases "candidate key i \<in> set used")
    case True
    with "1.IH" show ?thesis by (simp add: next_free.simps [of key used i])
  next
    case False
    then show ?thesis by (simp add: next_free.simps [of key used i])
  qed
qed

lemma next_free_first:
  "\<exists>n\<ge>i. next_free key used i = candidate key n
          \<and> (\<forall>m. i \<le> m \<and> m < n \<longrightarrow> candidate key m \<in> set used)"
proof (induction key used i rule: next_free.induct)
  case (1 key used i)
  show ?case
  proof (cases "candidate key i \<in> set used")
    case True
    with "1.IH" obtain n where n: "i + 1 \<le> n" "next_free key used (i + 1) = candidate key n"
      "\<forall>m. i + 1 \<le> m \<and> m < n \<longrightarrow> candidate key m \<in> set used"
      by auto
    have "\<forall>m. i \<le> m \<and> m < n \<longrightarrow> candidate key m \<in> set used"
    proof (intro allI impI)
      fix m assume "i \<le> m \<and> m < n"
      then show "candidate key m \<in> set used"
        using True n(3) by (cases "m = i") auto
    qed
    moreover have "next_free key used i = candidate key n"
      using True n(2) by (simp add: next_free.simps [of key used i])
    moreover have "i \<le> n" using n(1) by simp
    ultimately show ?thesis by blast
  next
    case False
    then have "next_free key used i = candidate key i"
      by (simp add: next_free.simps [of key used i])
    then show ?thesis by auto
  qed
qed

lemma next_free_cong: "set used = set used' \<Longrightarrow> next_free key used i = next_free key used' i"
proof (induction key used i rule: next_free.induct)
  case (1 key used i)
  show ?case
  proof (cases "candidate key i \<in> set used")
    case True
    with 1 show ?thesis
      by (simp add: next_free.simps [of key used i] next_free.simps [of key used' i])
  next
    case False
    with "1.prems" show ?thesis
      by (simp add: next_free.simps [of key used i] next_free.simps [of key used' i])
  qed
qed

lemma sanitize_key_str:
  "sanitize_key (PStr p) used =
     (if base_key p \<notin> set used then Inr (base_key p, base_key p # used)
      else Inr (next_free (base_key p) used 2, next_free (base_key p) used 2 # used))"
  by (cases p) (simp_all add: sanitize_key_def py_or_def Let_def)

lemma sanitize_key_fresh:
  assumes "sanitize_key path used = Inr (k, used')"
  shows "k \<notin> set used \<and> used' = k # used"
proof (cases "py_or path (PStr '''')")
  case (PStr p)
  with assms show ?thesis
    using next_free_fresh [of "base_key p" used 2]
    by (auto simp: sanitize_key_def Let_def split: if_splits)
qed (use assms in \<open>simp_all add: sanitize_key_def\<close>)

lemma sanitize_key_cong:
  assumes "set used = set used'"
  shows "map_sum id fst (sanitize_key path used) = map_sum id fst (sanitize_key path used')"
proof (cases "py_or path (PStr '''')")
  case (PStr p)
  with assms show ?thesis
    using next_free_cong [OF assms, of "base_key p" 2]
    by (simp add: sanitize_key_def Let_def)
qed (simp_all add: sanitize_key_def)

lemma base_key_example: "base_key ''/etc/Default/useradd!!'' = ''etc_default_useradd''"
  by code_simp

lemma base_key_nonempty: "base_key p \<noteq> []"
  by (simp add: base_key_def Let_def)

text \<open>
  The base key in the words of the specification: one leading slash is removed, the
  rest is put in lower case, every run of characters other than a-z and 0-9 becomes
  one underscore, the underscores at both ends are removed, and the empty result is
  replaced by root.
\<close>

function squeeze :: "string \<Rightarrow> string" where
  "squeeze [] = []"
| "squeeze (c # cs) =
     (if is_key_char c then c # squeeze cs
      else CHR ''_'' # squeeze (dropWhile (\<lambda>x. \<not> is_key_char x) cs))"
  by pat_completeness auto
termination
  by (relation "measure length") (auto simp: length_dropWhile_le less_Suc_eq_le)

definition spec_base_key :: "string \<Rightarrow> string" where
  "spec_base_key path =
     (let s = py_lower (if startswith path ''/'' then drop 1 path else path);
          key = strip_by (\<lambda>c. c = CHR ''_'') (squeeze s)
      in if key = [] then ''root'' else key)"

lemma underscore_not_key: "\<not> is_key_char CHR ''_''"
  by (simp add: is_key_char_def)

lemma collapse_squeeze:
  "collapse s out prev =
     out @ squeeze (if prev then dropWhile (\<lambda>x. \<not> is_key_char x) s else s)"
  by (induction s arbitrary: out prev) simp_all

lemma squeeze_eq_Nil: "squeeze s = [] \<longleftrightarrow> s = []"
  by (cases s) simp_all

lemma squeeze_lstrip:
  "dropWhile (\<lambda>c. c = CHR ''_'') (squeeze s) = squeeze (dropWhile (\<lambda>x. \<not> is_key_char x) s)"
proof (cases s)
  case Nil
  then show ?thesis by simp
next
  case (Cons c cs)
  show ?thesis
  proof (cases "is_key_char c")
    case True
    with Cons underscore_not_key show ?thesis by auto
  next
    case False
    let ?d = "dropWhile (\<lambda>x. \<not> is_key_char x) cs"
    have "dropWhile (\<lambda>c. c = CHR ''_'') (squeeze ?d) = squeeze ?d"
    proof (cases ?d)
      case Nil
      show ?thesis unfolding Nil by simp
    next
      case (Cons a r)
      then have "is_key_char a"
        using hd_dropWhile [of "\<lambda>x. \<not> is_key_char x" cs] by auto
      with Cons underscore_not_key show ?thesis by auto
    qed
    with Cons False show ?thesis by simp
  qed
qed

lemma rstrip_Cons:
  "rstrip_by P (c # cs) = (if rstrip_by P cs = [] \<and> P c then [] else c # rstrip_by P cs)"
  by (auto simp: rstrip_by_def dropWhile_append)

lemma rstrip_eq_Nil: "rstrip_by P s = [] \<longleftrightarrow> (\<forall>c\<in>set s. P c)"
  by (auto simp: rstrip_by_def dropWhile_eq_Nil_conv)

lemma strip_commute: "dropWhile P (rstrip_by P s) = rstrip_by P (dropWhile P s)"
proof (induction s)
  case Nil
  show ?case by (simp add: rstrip_by_def)
next
  case (Cons c cs)
  show ?case
  proof (cases "P c")
    case True
    show ?thesis
    proof (cases "rstrip_by P cs = []")
      case True
      then have d: "dropWhile P cs = []" by (simp add: rstrip_eq_Nil)
      have l: "rstrip_by P (c # cs) = []"
        using True \<open>P c\<close> by (simp add: rstrip_Cons)
      have r: "dropWhile P (c # cs) = []"
        using d \<open>P c\<close> by simp
      have e: "rstrip_by P [] = []" by (simp add: rstrip_by_def)
      show ?thesis unfolding l r e by simp
    next
      case False
      with True Cons.IH show ?thesis by (simp add: rstrip_Cons)
    qed
  next
    case False
    then show ?thesis by (simp add: rstrip_Cons)
  qed
qed



lemma all_dropWhile: "(\<forall>x\<in>set (dropWhile P cs). P x) \<longleftrightarrow> (\<forall>x\<in>set cs. P x)"
  by (induction cs) auto

lemma squeeze_rstrip:
  "rstrip_by (\<lambda>c. c = CHR ''_'') (squeeze s) = squeeze (rstrip_by (\<lambda>x. \<not> is_key_char x) s)"
proof (induction s rule: squeeze.induct)
  case 1
  show ?case by (simp add: rstrip_by_def)
next
  case (2 c cs)
  let ?nk = "\<lambda>x. \<not> is_key_char x"
  let ?us = "\<lambda>c. c = CHR ''_''"
  show ?case
  proof (cases "is_key_char c")
    case True
    then have ne: "c \<noteq> CHR ''_''" using underscore_not_key by auto
    from True "2.IH"(1) have ih: "rstrip_by ?us (squeeze cs) = squeeze (rstrip_by ?nk cs)"
      by simp
    have "rstrip_by ?us (squeeze (c # cs)) = c # rstrip_by ?us (squeeze cs)"
      using True ne by (simp add: rstrip_Cons)
    moreover have "squeeze (rstrip_by ?nk (c # cs)) = c # squeeze (rstrip_by ?nk cs)"
      using True by (simp add: rstrip_Cons)
    ultimately show ?thesis by (simp only: ih)
  next
    case False
    let ?d = "dropWhile ?nk cs"
    from False "2.IH"(2) have ih: "rstrip_by ?us (squeeze ?d) = squeeze (rstrip_by ?nk ?d)"
      by simp
    have sq: "squeeze (c # cs) = CHR ''_'' # squeeze ?d"
      using False by simp
    show ?thesis
    proof (cases "\<forall>x\<in>set cs. ?nk x")
      case True
      then have r1: "rstrip_by ?nk cs = []" by (simp only: rstrip_eq_Nil)
      from True have d: "?d = []" by (simp only: dropWhile_eq_Nil_conv)
      have "rstrip_by ?us (squeeze (c # cs)) = []"
        unfolding sq d by (simp add: rstrip_by_def)
      moreover have "rstrip_by ?nk (c # cs) = []"
        using False r1 by (simp add: rstrip_Cons)
      ultimately show ?thesis by simp
    next
      case nall: False
      then have r1: "rstrip_by ?nk cs \<noteq> []" by (simp only: rstrip_eq_Nil not_False_eq_True)
      from nall have "\<not> (\<forall>x\<in>set ?d. ?nk x)" by (simp only: all_dropWhile not_False_eq_True)
      then have "rstrip_by ?nk ?d \<noteq> []" by (simp only: rstrip_eq_Nil not_False_eq_True)
      then have r2: "rstrip_by ?us (squeeze ?d) \<noteq> []"
        by (simp only: ih squeeze_eq_Nil not_False_eq_True)
      have "rstrip_by ?us (squeeze (c # cs)) = CHR ''_'' # squeeze (rstrip_by ?nk ?d)"
        unfolding sq using r2 by (simp add: rstrip_Cons ih)
      moreover have "rstrip_by ?nk (c # cs) = c # rstrip_by ?nk cs"
        using r1 by (simp add: rstrip_Cons)
      moreover have "squeeze (c # rstrip_by ?nk cs) = CHR ''_'' # squeeze (dropWhile ?nk (rstrip_by ?nk cs))"
        using False by simp
      ultimately show ?thesis
        by (simp only: strip_commute)
    qed
  qed
qed

lemma trimmed_squeeze:
  "strip_by (\<lambda>c. c = CHR ''_'') (squeeze s) = squeeze (strip_by (\<lambda>x. \<not> is_key_char x) s)"
  by (simp add: strip_by_def lstrip_by_def squeeze_lstrip squeeze_rstrip)


lemma strip_map: "strip_by P (map f s) = map f (strip_by (\<lambda>c. P (f c)) s)"
  by (simp add: strip_by_def lstrip_by_def rstrip_by_def dropWhile_map rev_map o_def)

lemma lstrip_absorb:
  assumes "\<And>c. Q c \<Longrightarrow> P c"
  shows "dropWhile P (dropWhile Q s) = dropWhile P s"
  using assms by (induction s) auto

lemma rstrip_absorb:
  assumes "\<And>c. Q c \<Longrightarrow> P c"
  shows "rstrip_by P (rstrip_by Q s) = rstrip_by P s"
  by (simp add: rstrip_by_def lstrip_absorb [of Q P, OF assms])

lemma strip_absorb:
  assumes "\<And>c. Q c \<Longrightarrow> P c"
  shows "strip_by P (strip_by Q s) = strip_by P s"
proof -
  have "strip_by P (strip_by Q s) = rstrip_by P (dropWhile P (rstrip_by Q (dropWhile Q s)))"
    by (simp add: strip_by_def lstrip_by_def)
  also have "\<dots> = dropWhile P (rstrip_by P (rstrip_by Q (dropWhile Q s)))"
    by (simp only: strip_commute)
  also have "\<dots> = dropWhile P (rstrip_by P (dropWhile Q s))"
    by (simp only: rstrip_absorb [of Q P, OF assms])
  also have "\<dots> = rstrip_by P (dropWhile P (dropWhile Q s))"
    by (simp only: strip_commute)
  also have "\<dots> = rstrip_by P (dropWhile P s)"
    by (simp only: lstrip_absorb [of Q P, OF assms])
  finally show ?thesis
    by (simp add: strip_by_def lstrip_by_def)
qed

lemma strip_leading_slash:
  assumes "P CHR ''/''"
  shows "strip_by P (if startswith s ''/'' then drop 1 s else s) = strip_by P s"
proof (cases "startswith s ''/''")
  case True
  then obtain r where "s = CHR ''/'' # r" by (cases s) (auto simp: startswith_def)
  with assms True show ?thesis
    by (simp add: strip_by_def lstrip_by_def)
next
  case False
  then show ?thesis by simp
qed

lemma space_not_key: "py_isspace c \<Longrightarrow> \<not> is_key_char (lower_char c)"
  by (auto simp: py_isspace_def lower_char_def is_key_char_def Let_def)

lemma slash_not_key: "\<not> is_key_char (lower_char CHR ''/'')"
  by (simp add: lower_char_def is_key_char_def)

lemma base_key_refines: "base_key p = spec_base_key p"
proof -
  let ?P = "\<lambda>c. \<not> is_key_char (lower_char c)"
  let ?ds = "\<lambda>s. if startswith s ''/'' then drop 1 s else s"
  have core: "strip_by (\<lambda>c. c = CHR ''_'') (squeeze (py_lower s))
                = squeeze (map lower_char (strip_by ?P s))" for s
    by (simp add: trimmed_squeeze py_lower_def strip_map)
  have "strip_by ?P (?ds (py_strip p)) = strip_by ?P (py_strip p)"
    by (rule strip_leading_slash) (rule slash_not_key)
  also have "\<dots> = strip_by ?P p"
    unfolding py_strip_def by (rule strip_absorb) (rule space_not_key)
  also have "\<dots> = strip_by ?P (?ds p)"
    by (rule strip_leading_slash [symmetric]) (rule slash_not_key)
  finally have eq: "strip_by ?P (?ds (py_strip p)) = strip_by ?P (?ds p)" .
  have "strip_by (\<lambda>c. c = CHR ''_'') (collapse (py_lower (?ds (py_strip p))) [] False)
          = strip_by (\<lambda>c. c = CHR ''_'') (squeeze (py_lower (?ds p)))"
    by (simp only: collapse_squeeze core eq if_False append_Nil)
  then show ?thesis
    by (simp add: base_key_def spec_base_key_def Let_def)
qed

text \<open>
  C3. The path /etc/Default/useradd!! with no key in use gets the key
  etc_default_useradd, and gets etc_default_useradd_2 once that key is in use. In
  general the key of a string is its base key when that is not in use, and otherwise
  the base key with the suffix of the first number from 2 on whose candidate is not in
  use; the key returned was not in use before and is added to the set. A path with
  nothing but separators gets the key root. The base key is the one the
  specification describes.
\<close>

theorem sanitize_key_spec:
  "sanitize_key (PStr ''/etc/Default/useradd!!'') [] =
     Inr (''etc_default_useradd'', [''etc_default_useradd''])
   \<and> sanitize_key (PStr ''/etc/Default/useradd!!'') [''etc_default_useradd''] =
     Inr (''etc_default_useradd_2'', [''etc_default_useradd_2'', ''etc_default_useradd''])
   \<and> sanitize_key (PStr ''/'') [] = Inr (''root'', [''root''])
   \<and> base_key p = spec_base_key p
   \<and> (\<exists>k. sanitize_key (PStr p) used = Inr (k, k # used) \<and> k \<notin> set used
          \<and> (base_key p \<notin> set used \<longrightarrow> k = base_key p)
          \<and> (base_key p \<in> set used \<longrightarrow>
                (\<exists>n\<ge>2. k = base_key p @ ''_'' @ show_nat n
                   \<and> (\<forall>m. 2 \<le> m \<and> m < n \<longrightarrow> base_key p @ ''_'' @ show_nat m \<in> set used))))"
proof -
  have a: "sanitize_key (PStr ''/etc/Default/useradd!!'') [] =
     Inr (''etc_default_useradd'', [''etc_default_useradd''])"
    by (simp add: sanitize_key_str base_key_example)
  have "next_free ''etc_default_useradd'' [''etc_default_useradd''] 2 = ''etc_default_useradd_2''"
    by code_simp
  then have b: "sanitize_key (PStr ''/etc/Default/useradd!!'') [''etc_default_useradd''] =
     Inr (''etc_default_useradd_2'', [''etc_default_useradd_2'', ''etc_default_useradd''])"
    by (simp add: sanitize_key_str base_key_example)
  have "base_key ''/'' = ''root''" by code_simp
  then have c: "sanitize_key (PStr ''/'') [] = Inr (''root'', [''root''])"
    by (simp add: sanitize_key_str)
  have d: "\<exists>k. sanitize_key (PStr p) used = Inr (k, k # used) \<and> k \<notin> set used
          \<and> (base_key p \<notin> set used \<longrightarrow> k = base_key p)
          \<and> (base_key p \<in> set used \<longrightarrow>
                (\<exists>n\<ge>2. k = base_key p @ ''_'' @ show_nat n
                   \<and> (\<forall>m. 2 \<le> m \<and> m < n \<longrightarrow> base_key p @ ''_'' @ show_nat m \<in> set used)))"
  proof (cases "base_key p \<in> set used")
    case False
    then show ?thesis by (simp add: sanitize_key_str)
  next
    case True
    from next_free_first [of 2 "base_key p" used]
    obtain n where "2 \<le> n" "next_free (base_key p) used 2 = candidate (base_key p) n"
      "\<forall>m. 2 \<le> m \<and> m < n \<longrightarrow> candidate (base_key p) m \<in> set used"
      by blast
    with True next_free_fresh [of "base_key p" used 2] show ?thesis
      by (auto simp: sanitize_key_str candidate_def)
  qed
  from a b c d base_key_refines [of p] show ?thesis by blast
qed

theorem sanitize_key_spec_witness:
  "sanitize_key (PStr ''/etc/default/useradd'') [''etc_default_useradd_2'', ''etc_default_useradd'']
     = Inr (''etc_default_useradd_3'',
            [''etc_default_useradd_3'', ''etc_default_useradd_2'', ''etc_default_useradd''])"
proof -
  let ?u = "[''etc_default_useradd_2'', ''etc_default_useradd'']"
  have bk: "base_key ''/etc/default/useradd'' = ''etc_default_useradd''" by code_simp
  have s2: "show_nat 2 = ''2''" and s3: "show_nat 3 = ''3''" by code_simp+
  from sanitize_key_spec [of "''/etc/default/useradd''" ?u]
  have "\<exists>k. sanitize_key (PStr ''/etc/default/useradd'') ?u = Inr (k, k # ?u) \<and> k \<notin> set ?u
          \<and> (base_key ''/etc/default/useradd'' \<notin> set ?u \<longrightarrow> k = base_key ''/etc/default/useradd'')
          \<and> (base_key ''/etc/default/useradd'' \<in> set ?u \<longrightarrow>
                (\<exists>n\<ge>2. k = base_key ''/etc/default/useradd'' @ ''_'' @ show_nat n
                   \<and> (\<forall>m. 2 \<le> m \<and> m < n \<longrightarrow>
                         base_key ''/etc/default/useradd'' @ ''_'' @ show_nat m \<in> set ?u)))"
    by blast
  then obtain k where k: "sanitize_key (PStr ''/etc/default/useradd'') ?u = Inr (k, k # ?u)"
    and fresh: "k \<notin> set ?u"
    and taken: "base_key ''/etc/default/useradd'' \<in> set ?u \<longrightarrow>
                (\<exists>n\<ge>2. k = base_key ''/etc/default/useradd'' @ ''_'' @ show_nat n
                   \<and> (\<forall>m. 2 \<le> m \<and> m < n \<longrightarrow>
                         base_key ''/etc/default/useradd'' @ ''_'' @ show_nat m \<in> set ?u))"
    by blast
  have "base_key ''/etc/default/useradd'' \<in> set ?u"
    by (simp add: bk)
  with taken obtain n where n: "2 \<le> n" "k = ''etc_default_useradd'' @ ''_'' @ show_nat n"
      "\<forall>m. 2 \<le> m \<and> m < n \<longrightarrow> ''etc_default_useradd'' @ ''_'' @ show_nat m \<in> set ?u"
    unfolding bk by blast
  have "n \<noteq> 2" using fresh n(2) s2 by auto
  moreover have "\<not> 3 < n"
  proof
    assume "3 < n"
    with n(3) have "''etc_default_useradd'' @ ''_'' @ show_nat 3 \<in> set ?u" by simp
    then show False by (simp add: s3)
  qed
  ultimately have "n = 3" using n(1) by simp
  with k n(2) s3 show ?thesis by simp
qed

section \<open>Link resolution\<close>

lemma startswith_slash: "startswith s ''/'' \<longleftrightarrow> (\<exists>r. s = CHR ''/'' # r)"
  by (cases s) (auto simp: startswith_def)

lemma endswith_slash: "endswith s ''/'' \<longleftrightarrow> (s \<noteq> [] \<and> last s = CHR ''/'')"
proof (cases s rule: rev_cases)
  case Nil
  then show ?thesis by (simp add: endswith_def)
next
  case (snoc ys y)
  then show ?thesis by (simp add: endswith_def)
qed

lemma link_base_dir_abs: "startswith (link_base_dir lp) ''/''"
  by (simp add: link_base_dir_def Let_def startswith_slash)

lemma normpath_abs:
  assumes "startswith p ''/''"
  shows "startswith (posix_normpath p) ''/''"
proof -
  from assms obtain r where p: "p = CHR ''/'' # r"
    by (auto simp: startswith_slash)
  have i: "initial_slashes p = 1 \<or> initial_slashes p = 2"
    using assms by (simp add: initial_slashes_def)
  then show ?thesis
    using p by (auto simp: posix_normpath_def Let_def startswith_slash numeral_2_eq_2)
qed

lemma join_abs:
  assumes "startswith a ''/''"
  shows "startswith (posix_join a b) ''/''"
  using assms by (auto simp: posix_join_def startswith_slash)

lemma abs_link_src_abs:
  assumes "abs_link_src linkto lp = Some r"
  shows "startswith r ''/''"
proof -
  from assms have t: "truthy linkto"
    by (auto simp: abs_link_src_def split: if_splits)
  show ?thesis
  proof (cases "startswith (py_strip (py_str linkto)) ''/''")
    case True
    with assms t have "r = posix_normpath (py_strip (py_str linkto))"
      by (simp add: abs_link_src_def Let_def)
    with True show ?thesis by (simp add: normpath_abs)
  next
    case False
    with assms t
    have "r = posix_normpath (posix_join (link_base_dir lp) (py_strip (py_str linkto)))"
      by (simp add: abs_link_src_def Let_def)
    then show ?thesis
      by (simp add: normpath_abs join_abs link_base_dir_abs)
  qed
qed

lemma rfind_last_component:
  assumes "CHR ''/'' \<notin> set name"
  shows "rfind CHR ''/'' (d @ CHR ''/'' # name) = int (length d)"
proof -
  have "takeWhile (\<lambda>x. x \<noteq> CHR ''/'') (rev name @ CHR ''/'' # rev d)
          = takeWhile (\<lambda>x. x \<noteq> CHR ''/'') (rev name)"
    by (simp add: takeWhile_tail)
  also have "\<dots> = rev name"
    using assms by (auto simp: takeWhile_eq_all_conv)
  finally show ?thesis
    by (simp add: rfind_def)
qed

lemma dirname_of_child:
  assumes "CHR ''/'' \<notin> set name" and "d \<noteq> []" and "last d \<noteq> CHR ''/''"
  shows "posix_dirname (d @ CHR ''/'' # name) = d"
proof -
  have "nat (rfind CHR ''/'' (d @ CHR ''/'' # name) + 1) = Suc (length d)"
    by (simp add: rfind_last_component [OF assms(1)])
  then have take_eq:
    "take (nat (rfind CHR ''/'' (d @ CHR ''/'' # name) + 1)) (d @ CHR ''/'' # name) = d @ ''/''"
    by simp
  have "last d \<in> set (d @ ''/'')" using assms(2) by simp
  then have ne: "d @ ''/'' \<noteq> replicate (length (d @ ''/'')) CHR ''/''"
    using assms(3) by (metis in_set_replicate)
  have "dropWhile (\<lambda>c. c = CHR ''/'') (rev d) = rev d"
    using assms(2,3) by (cases d rule: rev_cases) simp_all
  then have "rstrip_by (\<lambda>c. c = CHR ''/'') (d @ ''/'') = d"
    by (simp add: rstrip_by_def)
  with take_eq ne show ?thesis
    unfolding posix_dirname_def Let_def by simp
qed

lemma link_base_dir_of_child:
  assumes "CHR ''/'' \<notin> set name" and "startswith d ''/''" and "last d \<noteq> CHR ''/''"
  shows "link_base_dir (PStr (d @ CHR ''/'' # name)) = d"
proof -
  from assms(2) have "d \<noteq> []" by (auto simp: startswith_slash)
  with assms have "posix_dirname (d @ CHR ''/'' # name) = d"
    by (simp add: dirname_of_child)
  with assms(2) \<open>d \<noteq> []\<close> show ?thesis
    by (simp add: link_base_dir_def Let_def py_str_def)
qed

lemma dirname_no_slash: "CHR ''/'' \<notin> set s \<Longrightarrow> posix_dirname s = []"
  by (simp add: posix_dirname_def rfind_def)

lemma link_base_dir_default:
  assumes "CHR ''/'' \<notin> set (py_str lp)"
  shows "link_base_dir lp = ''/''"
proof (cases "py_str lp = []")
  case True
  have "posix_dirname ''/'' = ''/''" by code_simp
  with True show ?thesis by (simp add: link_base_dir_def Let_def startswith_def)
next
  case False
  with assms show ?thesis
    by (simp add: link_base_dir_def Let_def dirname_no_slash startswith_def)
qed

lemma abs_link_src_bash: "abs_link_src (PStr ''/bin/bash'') lp = Some ''/bin/bash''"
proof -
  have "py_strip ''/bin/bash'' = ''/bin/bash''" by code_simp
  moreover have "posix_normpath ''/bin/bash'' = ''/bin/bash''" by code_simp
  ultimately show ?thesis
    by (simp add: abs_link_src_def py_str_def startswith_def)
qed

lemma link_base_dir_dirname:
  "link_base_dir lp =
     (let d = posix_dirname (if py_str lp = [] then ''/'' else py_str lp)
      in if d = [] then ''/'' else if startswith d ''/'' then d else ''/'' @ d)"
proof -
  let ?d = "posix_dirname (if py_str lp = [] then ''/'' else py_str lp)"
  show ?thesis
  proof (cases ?d)
    case Nil
    then show ?thesis
      by (simp add: link_base_dir_def Let_def startswith_def)
  next
    case (Cons a r)
    then show ?thesis
      by (simp add: link_base_dir_def Let_def startswith_def lstrip_by_def)
  qed
qed

lemma link_base_dir_of_any_child:
  assumes "CHR ''/'' \<notin> set name" and "d \<noteq> []" and "last d \<noteq> CHR ''/''"
  shows "link_base_dir (PStr (d @ CHR ''/'' # name)) = (if startswith d ''/'' then d else ''/'' @ d)"
proof -
  have "posix_dirname (d @ CHR ''/'' # name) = d"
    using assms by (rule dirname_of_child)
  with assms(2) show ?thesis
    by (simp add: link_base_dir_dirname py_str_def Let_def)
qed

text \<open>
  C4, as the code has it. The link source is computed from the two values alone. A
  target that is absent or empty (or any other false value) gives no result. Otherwise
  the target is read as text and the white space at its two ends is removed first: if
  what remains starts with a slash, the result is its normal form, whatever the link
  path; if not, it is joined to the base directory and the join is normalised. The base
  directory is the directory part of the link path, the slash alone when that part is
  empty (a link path that is empty or has no slash), and gets a slash in front when it
  does not start with one: for a link path of the form directory, slash, name it is the
  directory, with a slash in front if it has none. Every result starts with a slash.
  The target /bin/bash resolves to /bin/bash for every link path, and ../bin/sh at
  /usr/sbin/service resolves to /usr/bin/sh.
\<close>

theorem abs_link_src_spec:
  "abs_link_src PNone lp = None
   \<and> abs_link_src (PStr '''') lp = None
   \<and> (\<not> truthy linkto \<longrightarrow> abs_link_src linkto lp = None)
   \<and> (truthy linkto \<and> startswith (py_strip (py_str linkto)) ''/'' \<longrightarrow>
        abs_link_src linkto lp = Some (posix_normpath (py_strip (py_str linkto))))
   \<and> (truthy linkto \<and> \<not> startswith (py_strip (py_str linkto)) ''/'' \<longrightarrow>
        abs_link_src linkto lp =
          Some (posix_normpath (posix_join (link_base_dir lp) (py_strip (py_str linkto)))))
   \<and> startswith (link_base_dir lp) ''/''
   \<and> link_base_dir lp =
        (let dir = posix_dirname (if py_str lp = [] then ''/'' else py_str lp)
         in if dir = [] then ''/'' else if startswith dir ''/'' then dir else ''/'' @ dir)
   \<and> (CHR ''/'' \<notin> set (py_str lp) \<longrightarrow> link_base_dir lp = ''/'')
   \<and> (CHR ''/'' \<notin> set name \<and> d \<noteq> [] \<and> last d \<noteq> CHR ''/'' \<longrightarrow>
        posix_dirname (d @ ''/'' @ name) = d
        \<and> link_base_dir (PStr (d @ ''/'' @ name)) = (if startswith d ''/'' then d else ''/'' @ d))
   \<and> (\<forall>r. abs_link_src linkto lp = Some r \<longrightarrow> startswith r ''/'')
   \<and> abs_link_src (PStr ''/bin/bash'') lp = Some ''/bin/bash''
   \<and> abs_link_src (PStr ''../bin/sh'') (PStr ''/usr/sbin/service'') = Some ''/usr/bin/sh''"
proof -
  have a: "abs_link_src PNone lp = None" "abs_link_src (PStr '''') lp = None"
    "\<not> truthy linkto \<longrightarrow> abs_link_src linkto lp = None"
    by (simp_all add: abs_link_src_def)
  have b: "truthy linkto \<and> startswith (py_strip (py_str linkto)) ''/'' \<longrightarrow>
        abs_link_src linkto lp = Some (posix_normpath (py_strip (py_str linkto)))"
    by (simp add: abs_link_src_def Let_def)
  have c: "truthy linkto \<and> \<not> startswith (py_strip (py_str linkto)) ''/'' \<longrightarrow>
        abs_link_src linkto lp =
          Some (posix_normpath (posix_join (link_base_dir lp) (py_strip (py_str linkto))))"
    by (simp add: abs_link_src_def Let_def)
  have d: "CHR ''/'' \<notin> set (py_str lp) \<longrightarrow> link_base_dir lp = ''/''"
    by (simp add: link_base_dir_default)
  have e: "CHR ''/'' \<notin> set name \<and> d \<noteq> [] \<and> last d \<noteq> CHR ''/'' \<longrightarrow>
        posix_dirname (d @ ''/'' @ name) = d
        \<and> link_base_dir (PStr (d @ ''/'' @ name)) = (if startswith d ''/'' then d else ''/'' @ d)"
    by (simp add: link_base_dir_of_any_child dirname_of_child)
  have f: "\<forall>r. abs_link_src linkto lp = Some r \<longrightarrow> startswith r ''/''"
    by (simp add: abs_link_src_abs)
  have g: "abs_link_src (PStr ''../bin/sh'') (PStr ''/usr/sbin/service'') = Some ''/usr/bin/sh''"
    by code_simp
  from a b c d e f g link_base_dir_abs [of lp] link_base_dir_dirname [of lp]
    abs_link_src_bash [of lp]
  show ?thesis by blast
qed

theorem abs_link_src_spec_witness:
  "abs_link_src (PStr ''sh'') (PStr ''/usr/sbin/service'') = Some ''/usr/sbin/sh''
   \<and> abs_link_src (PStr '' /usr//lib/../bin/./sh  '') (PStr ''anything'') = Some ''/usr/bin/sh''
   \<and> abs_link_src (PInt 0) (PStr ''/usr/sbin/service'') = None
   \<and> link_base_dir (PStr ''service'') = ''/''
   \<and> link_base_dir (PStr ''rel/dir/service'') = ''/rel/dir''
   \<and> abs_link_src (PStr ''../x'') (PStr ''rel/dir/service'') = Some ''/rel/x''"
proof -
  have t1: "truthy (PStr ''sh'') \<and> \<not> startswith (py_strip (py_str (PStr ''sh''))) ''/''"
    by code_simp
  have b1: "CHR ''/'' \<notin> set ''service'' \<and> ''/usr/sbin'' \<noteq> [] \<and> last ''/usr/sbin'' \<noteq> CHR ''/''"
    by code_simp
  have s1: "startswith ''/usr/sbin'' ''/''" by code_simp
  have n1: "posix_normpath (posix_join ''/usr/sbin'' (py_strip (py_str (PStr ''sh'')))) = ''/usr/sbin/sh''"
    by code_simp
  have t2: "truthy (PStr '' /usr//lib/../bin/./sh  '')
            \<and> startswith (py_strip (py_str (PStr '' /usr//lib/../bin/./sh  ''))) ''/''"
    by code_simp
  have n2: "posix_normpath (py_strip (py_str (PStr '' /usr//lib/../bin/./sh  ''))) = ''/usr/bin/sh''"
    by code_simp
  have t3: "\<not> truthy (PInt 0)" by simp
  have s4: "CHR ''/'' \<notin> set (py_str (PStr ''service''))" by code_simp
  have b5: "CHR ''/'' \<notin> set ''service'' \<and> ''rel/dir'' \<noteq> [] \<and> last ''rel/dir'' \<noteq> CHR ''/''"
    by code_simp
  have s5: "\<not> startswith ''rel/dir'' ''/''" by code_simp
  have t6: "truthy (PStr ''../x'') \<and> \<not> startswith (py_strip (py_str (PStr ''../x''))) ''/''"
    by code_simp
  have n6: "posix_normpath (posix_join ''/rel/dir'' (py_strip (py_str (PStr ''../x'')))) = ''/rel/x''"
    by code_simp
  note th1 = abs_link_src_spec [of "PStr ''/usr/sbin/service''" "PStr ''sh''" "''service''" "''/usr/sbin''"]
  note th2 = abs_link_src_spec [of "PStr ''anything''" "PStr '' /usr//lib/../bin/./sh  ''" "''service''" "''/usr/sbin''"]
  note th3 = abs_link_src_spec [of "PStr ''/usr/sbin/service''" "PInt 0" "''service''" "''/usr/sbin''"]
  note th4 = abs_link_src_spec [of "PStr ''service''" "PInt 0" "''service''" "''/usr/sbin''"]
  note th5 = abs_link_src_spec [of "PStr ''rel/dir/service''" "PStr ''../x''" "''service''" "''rel/dir''"]
  have "link_base_dir (PStr (''/usr/sbin'' @ ''/'' @ ''service''))
          = (if startswith ''/usr/sbin'' ''/'' then ''/usr/sbin'' else ''/'' @ ''/usr/sbin'')"
    using th1 b1 by blast
  then have bd: "link_base_dir (PStr ''/usr/sbin/service'') = ''/usr/sbin''"
    using s1 by simp
  have "abs_link_src (PStr ''sh'') (PStr ''/usr/sbin/service'') =
          Some (posix_normpath (posix_join (link_base_dir (PStr ''/usr/sbin/service''))
                  (py_strip (py_str (PStr ''sh'')))))"
    using th1 t1 by blast
  then have r1: "abs_link_src (PStr ''sh'') (PStr ''/usr/sbin/service'') = Some ''/usr/sbin/sh''"
    by (simp only: bd n1)
  have "abs_link_src (PStr '' /usr//lib/../bin/./sh  '') (PStr ''anything'') =
          Some (posix_normpath (py_strip (py_str (PStr '' /usr//lib/../bin/./sh  ''))))"
    using th2 t2 by blast
  then have r2: "abs_link_src (PStr '' /usr//lib/../bin/./sh  '') (PStr ''anything'') = Some ''/usr/bin/sh''"
    by (simp only: n2)
  have r3: "abs_link_src (PInt 0) (PStr ''/usr/sbin/service'') = None"
    using th3 t3 by blast
  have r4: "link_base_dir (PStr ''service'') = ''/''"
    using th4 s4 by blast
  have "link_base_dir (PStr (''rel/dir'' @ ''/'' @ ''service''))
          = (if startswith ''rel/dir'' ''/'' then ''rel/dir'' else ''/'' @ ''rel/dir'')"
    using th5 b5 by blast
  then have r5: "link_base_dir (PStr ''rel/dir/service'') = ''/rel/dir''"
    using s5 by simp
  have "abs_link_src (PStr ''../x'') (PStr ''rel/dir/service'') =
          Some (posix_normpath (posix_join (link_base_dir (PStr ''rel/dir/service''))
                  (py_strip (py_str (PStr ''../x'')))))"
    using th5 t6 by blast
  then have r6: "abs_link_src (PStr ''../x'') (PStr ''rel/dir/service'') = Some ''/rel/x''"
    by (simp only: r5 n6)
  from r1 r2 r3 r4 r5 r6 show ?thesis by blast
qed

theorem abs_link_src_strip_counterexample:
  "startswith ''/bin/bash '' ''/''
   \<and> abs_link_src (PStr ''/bin/bash '') (PStr ''/usr/sbin/service'') = Some ''/bin/bash''
   \<and> abs_link_src (PStr ''/bin/bash '') (PStr ''/usr/sbin/service'')
       \<noteq> Some (posix_normpath ''/bin/bash '')
   \<and> \<not> startswith '' /bin/bash'' ''/''
   \<and> abs_link_src (PStr '' /bin/bash'') (PStr ''/usr/sbin/service'') = Some ''/bin/bash''
   \<and> abs_link_src (PStr '' /bin/bash'') (PStr ''/usr/sbin/service'')
       \<noteq> Some (posix_normpath (posix_join (link_base_dir (PStr ''/usr/sbin/service''))
                  '' /bin/bash''))"
  by code_simp

section \<open>White-space targets\<close>

lemma split_on_nonempty: "split_on c s \<noteq> []"
  by (induction s) (auto split: list.splits)

lemma split_on_snoc_sep: "split_on c (s @ [c]) = split_on c s @ [[]]"
proof (induction s)
  case Nil
  show ?case by simp
next
  case (Cons x s)
  then show ?case
    using split_on_nonempty [of c s] by (cases "split_on c s") auto
qed

lemma initial_slashes_snoc:
  assumes "s \<noteq> []" and "last s \<noteq> CHR ''/''"
  shows "initial_slashes (s @ ''/'') = initial_slashes s"
proof (cases s)
  case Nil
  with assms show ?thesis by simp
next
  case (Cons a r)
  note s = this
  show ?thesis
  proof (cases r)
    case Nil
    with s assms show ?thesis
      by (simp add: initial_slashes_def startswith_def)
  next
    case (Cons b t)
    note r = this
    show ?thesis
    proof (cases t)
      case Nil
      with s r assms show ?thesis
        by (simp add: initial_slashes_def startswith_def)
    next
      case (Cons c u)
      with s r show ?thesis
        by (simp add: initial_slashes_def startswith_def)
    qed
  qed
qed

lemma fold_trailing_slash:
  "foldl (norm_step i) [] (split_on CHR ''/'' (s @ ''/''))
     = foldl (norm_step i) [] (split_on CHR ''/'' s)"
  by (simp add: split_on_snoc_sep norm_step_def)

lemma normpath_trailing_slash:
  assumes "s \<noteq> []" and "last s \<noteq> CHR ''/''"
  shows "posix_normpath (s @ ''/'') = posix_normpath s"
  unfolding posix_normpath_def Let_def initial_slashes_snoc [OF assms] fold_trailing_slash
  using assms by simp

lemma join_empty_normpath:
  assumes "a \<noteq> []"
  shows "posix_normpath (posix_join a []) = posix_normpath a"
proof (cases "last a = CHR ''/''")
  case True
  with assms show ?thesis
    by (simp add: posix_join_def startswith_def endswith_slash)
next
  case False
  with assms show ?thesis
    by (simp add: posix_join_def startswith_def endswith_slash normpath_trailing_slash)
qed

lemma strip_all_space:
  assumes "\<forall>c\<in>set t. py_isspace c"
  shows "py_strip t = []"
proof -
  from assms have d: "dropWhile py_isspace t = []" by (induction t) auto
  show ?thesis
    unfolding py_strip_def strip_by_def lstrip_by_def rstrip_by_def d by simp
qed

text \<open>
  C10. A link target that is a non-empty string of white space only gives a result,
  the normal form of the base directory of the link path, whereas the empty target
  gives none: the test for emptiness comes before the white space is removed. The
  target of two blanks at /usr/sbin/service gives /usr/sbin.
\<close>

theorem abs_link_src_blank_target:
  "(t \<noteq> [] \<and> (\<forall>c\<in>set t. py_isspace c) \<longrightarrow>
      abs_link_src (PStr t) lp = Some (posix_normpath (link_base_dir lp)))
   \<and> abs_link_src (PStr '''') lp = None
   \<and> abs_link_src (PStr ''  '') (PStr ''/usr/sbin/service'') = Some ''/usr/sbin''"
proof (intro conjI impI)
  assume h: "t \<noteq> [] \<and> (\<forall>c\<in>set t. py_isspace c)"
  then have "py_strip (py_str (PStr t)) = []"
    by (simp add: py_str_def strip_all_space)
  moreover have "link_base_dir lp \<noteq> []"
    using link_base_dir_abs [of lp] by (auto simp: startswith_slash)
  ultimately show "abs_link_src (PStr t) lp = Some (posix_normpath (link_base_dir lp))"
    using h by (simp add: abs_link_src_def startswith_def join_empty_normpath)
next
  show "abs_link_src (PStr '''') lp = None"
    by (simp add: abs_link_src_def)
next
  show "abs_link_src (PStr ''  '') (PStr ''/usr/sbin/service'') = Some ''/usr/sbin''"
    by code_simp
qed

theorem abs_link_src_blank_target_witness:
  "abs_link_src (PStr [CHR 0x09, CHR '' '']) (PStr ''/etc/alternatives/../x'') = Some ''/etc''"
proof -
  have "[CHR 0x09, CHR '' ''] \<noteq> [] \<and> (\<forall>c\<in>set [CHR 0x09, CHR '' '']. py_isspace c)"
    by (simp add: py_isspace_def)
  then have "abs_link_src (PStr [CHR 0x09, CHR '' '']) (PStr ''/etc/alternatives/../x'')
               = Some (posix_normpath (link_base_dir (PStr ''/etc/alternatives/../x'')))"
    using abs_link_src_blank_target [of "[CHR 0x09, CHR '' '']" "PStr ''/etc/alternatives/../x''"]
    by blast
  moreover have "posix_normpath (link_base_dir (PStr ''/etc/alternatives/../x'')) = ''/etc''"
    by code_simp
  ultimately show ?thesis by simp
qed

section \<open>Merging\<close>

text \<open>
  The statement of the merge in the words of the specification: over the records of all
  packages in order, a record is kept when its path is true (for a string: not empty) and
  differs from the path of every record kept so far.
\<close>

definition str_or_none :: "pyval \<Rightarrow> bool" where
  "str_or_none v = (case v of PNone \<Rightarrow> True | PStr s \<Rightarrow> True | _ \<Rightarrow> False)"

fun first_seen :: "pyval list \<Rightarrow> entry list \<Rightarrow> entry list" where
  "first_seen seen [] = []"
| "first_seen seen (r # rs) =
     (if truthy (dict_get r ''path'') \<and> dict_get r ''path'' \<notin> set seen
      then r # first_seen (dict_get r ''path'' # seen) rs
      else first_seen seen rs)"

text \<open>The record at index \<open>i\<close> is the first of its path, and its path is not empty.\<close>

definition first_of_path :: "entry list \<Rightarrow> nat \<Rightarrow> bool" where
  "first_of_path rs i \<longleftrightarrow>
     truthy (dict_get (rs ! i) ''path'')
     \<and> (\<forall>j<i. dict_get (rs ! j) ''path'' \<noteq> dict_get (rs ! i) ''path'')"

text \<open>
  A package object whose \<^verbatim>\<open>files\<close> are the list of the dictionaries \<open>ds\<close> (or are
  missing, with \<open>ds\<close> empty), every path missing, \<^verbatim>\<open>None\<close> or a string.
\<close>

definition pkg_files :: "entry \<Rightarrow> entry list \<Rightarrow> bool" where
  "pkg_files pkg ds \<longleftrightarrow>
     py_or (dict_get pkg ''files'') (PList []) = PList (map PDict ds)
     \<and> list_all (\<lambda>d. str_or_none (dict_get d ''path'')) ds"

lemma str_or_none_hash:
  "str_or_none p \<Longrightarrow> hashable p \<and> hash_key p = p"
  by (cases p) (simp_all add: str_or_none_def)

lemma merge_files_first_seen:
  assumes "list_all (\<lambda>d. str_or_none (dict_get d ''path'')) ds"
  shows "merge_files (map PDict ds) seen out =
           Inr (rev (map (\<lambda>d. dict_get d ''path'') (first_seen seen ds)) @ seen,
                out @ first_seen seen ds)"
  using assms
proof (induction ds arbitrary: seen out)
  case Nil
  show ?case by simp
next
  case (Cons d ds)
  then have h: "hashable (dict_get d ''path'')" "hash_key (dict_get d ''path'') = dict_get d ''path''"
    and rest: "list_all (\<lambda>d. str_or_none (dict_get d ''path'')) ds"
    by (simp_all add: str_or_none_hash)
  show ?case
    by (simp add: h Let_def Cons.IH [OF rest])
qed

lemma first_seen_append:
  "first_seen seen (xs @ ys) =
     first_seen seen xs
       @ first_seen (rev (map (\<lambda>d. dict_get d ''path'') (first_seen seen xs)) @ seen) ys"
  by (induction xs arbitrary: seen) simp_all

lemma merge_pkgs_first_seen:
  assumes "list_all2 pkg_files pkgs dss"
  shows "merge_pkgs pkgs seen out =
           Inr (rev (map (\<lambda>d. dict_get d ''path'') (first_seen seen (concat dss))) @ seen,
                out @ first_seen seen (concat dss))"
  using assms
proof (induction pkgs dss arbitrary: seen out rule: list_all2_induct)
  case Nil
  show ?case by simp
next
  case (Cons pkg pkgs ds dss)
  from Cons.hyps(1) have f: "py_or (dict_get pkg ''files'') (PList []) = PList (map PDict ds)"
    and ok: "list_all (\<lambda>d. str_or_none (dict_get d ''path'')) ds"
    by (simp_all add: pkg_files_def)
  show ?case
    by (simp add: f merge_files_first_seen [OF ok] Cons.IH first_seen_append)
qed

lemma first_seen_paths:
  "d \<in> set (first_seen seen rs) \<Longrightarrow>
     truthy (dict_get d ''path'') \<and> dict_get d ''path'' \<notin> set seen"
proof (induction rs arbitrary: seen)
  case Nil
  then show ?case by simp
next
  case (Cons r rs)
  show ?case
  proof (cases "truthy (dict_get r ''path'') \<and> dict_get r ''path'' \<notin> set seen")
    case True
    with Cons.prems have "d = r \<or> d \<in> set (first_seen (dict_get r ''path'' # seen) rs)"
      by simp
    then show ?thesis
    proof
      assume "d = r"
      with True show ?thesis by simp
    next
      assume "d \<in> set (first_seen (dict_get r ''path'' # seen) rs)"
      from Cons.IH [OF this] show ?thesis by simp
    qed
  next
    case False
    with Cons.prems have "d \<in> set (first_seen seen rs)" by auto
    from Cons.IH [OF this] show ?thesis .
  qed
qed

lemma first_seen_distinct: "distinct (map (\<lambda>d. dict_get d ''path'') (first_seen seen rs))"
proof (induction rs arbitrary: seen)
  case Nil
  show ?case by simp
next
  case (Cons r rs)
  have "dict_get r ''path'' \<notin> (\<lambda>d. dict_get d ''path'') ` set (first_seen (dict_get r ''path'' # seen) rs)"
    using first_seen_paths [of _ "dict_get r ''path'' # seen" rs] by fastforce
  with Cons.IH show ?case by simp
qed

lemma all_less_Suc_shift: "(\<forall>j<Suc i. Q j) \<longleftrightarrow> Q 0 \<and> (\<forall>j<i. Q (Suc j))"
proof
  assume a: "\<forall>j<Suc i. Q j"
  then show "Q 0 \<and> (\<forall>j<i. Q (Suc j))" by auto
next
  assume a: "Q 0 \<and> (\<forall>j<i. Q (Suc j))"
  show "\<forall>j<Suc i. Q j"
  proof (intro allI impI)
    fix j assume "j < Suc i"
    with a show "Q j" by (cases j) auto
  qed
qed

lemma first_seen_indices:
  "first_seen seen rs =
     map ((!) rs)
       (filter (\<lambda>i. first_of_path rs i \<and> dict_get (rs ! i) ''path'' \<notin> set seen) [0..<length rs])"
proof (induction rs arbitrary: seen)
  case Nil
  show ?case by simp
next
  case (Cons r rs)
  let ?p = "\<lambda>d. dict_get d ''path''"
  let ?K = "\<lambda>xs sn i. first_of_path xs i \<and> ?p (xs ! i) \<notin> set sn"
  have upt: "[0..<length (r # rs)] = 0 # map Suc [0..<length rs]"
    by (simp add: upt_conv_Cons map_Suc_upt del: upt_Suc)
  have head: "first_of_path (r # rs) 0 \<longleftrightarrow> truthy (?p r)"
    by (simp add: first_of_path_def)
  have shift: "map ((!) (r # rs)) (map Suc js) = map ((!) rs) js" for js
    by simp
  show ?case
  proof (cases "truthy (?p r) \<and> ?p r \<notin> set seen")
    case True
    have "filter (\<lambda>i. ?K (r # rs) seen (Suc i)) [0..<length rs]
            = filter (\<lambda>i. ?K rs (?p r # seen) i) [0..<length rs]"
      by (rule filter_cong [OF refl]) (auto simp: first_of_path_def all_less_Suc_shift)
    with True show ?thesis
      unfolding upt
      by (simp add: head filter_map o_def Cons.IH [of "?p r # seen"] del: upt_Suc)
  next
    case False
    have "filter (\<lambda>i. ?K (r # rs) seen (Suc i)) [0..<length rs]
            = filter (\<lambda>i. ?K rs seen i) [0..<length rs]"
      using False
      by (intro filter_cong [OF refl]) (auto simp: first_of_path_def all_less_Suc_shift)
    moreover from False have "first_seen seen (r # rs) = first_seen seen rs"
      by auto
    moreover from False have "\<not> (first_of_path (r # rs) 0 \<and> ?p ((r # rs) ! 0) \<notin> set seen)"
      by (auto simp: head)
    ultimately show ?thesis
      unfolding upt
      by (simp add: filter_map o_def Cons.IH [of seen] del: upt_Suc)
  qed
qed

text \<open>
  C6. For package objects whose files are lists of records with string (or missing)
  paths, the merge returns, in the order of the packages and of their files, exactly
  the records whose path is not empty and differs from the path of every record kept
  before; equivalently the records at the indices that are the first of their
  non-empty path. No two kept records share a path. When two packages list
  /etc/foo.conf with different modes, the record of the first package is the one kept.
\<close>

theorem merge_first_seen:
  "(list_all2 pkg_files pkgs dss \<longrightarrow>
      merge_files_from_packages pkgs = Inr (first_seen [] (concat dss))
      \<and> first_seen [] (concat dss) =
          map ((!) (concat dss)) (filter (first_of_path (concat dss)) [0..<length (concat dss)])
      \<and> distinct (map (\<lambda>d. dict_get d ''path'') (first_seen [] (concat dss))))
   \<and> merge_files_from_packages
        [[(''files'', PList [PDict [(''path'', PStr ''/etc/foo.conf''), (''mode'', PStr ''0644'')]])],
         [(''files'', PList [PDict [(''path'', PStr ''/etc/foo.conf''), (''mode'', PStr ''0600'')],
                             PDict [(''path'', PStr '''')],
                             PDict [(''path'', PStr ''/etc/bar'')]])]]
      = Inr [[(''path'', PStr ''/etc/foo.conf''), (''mode'', PStr ''0644'')],
             [(''path'', PStr ''/etc/bar'')]]"
proof (intro conjI impI)
  assume h: "list_all2 pkg_files pkgs dss"
  show "merge_files_from_packages pkgs = Inr (first_seen [] (concat dss))"
    by (simp add: merge_files_from_packages_def merge_pkgs_first_seen [OF h])
  show "first_seen [] (concat dss) =
          map ((!) (concat dss)) (filter (first_of_path (concat dss)) [0..<length (concat dss)])"
    by (simp add: first_seen_indices)
  show "distinct (map (\<lambda>d. dict_get d ''path'') (first_seen [] (concat dss)))"
    by (rule first_seen_distinct)
next
  show "merge_files_from_packages
        [[(''files'', PList [PDict [(''path'', PStr ''/etc/foo.conf''), (''mode'', PStr ''0644'')]])],
         [(''files'', PList [PDict [(''path'', PStr ''/etc/foo.conf''), (''mode'', PStr ''0600'')],
                             PDict [(''path'', PStr '''')],
                             PDict [(''path'', PStr ''/etc/bar'')]])]]
      = Inr [[(''path'', PStr ''/etc/foo.conf''), (''mode'', PStr ''0644'')],
             [(''path'', PStr ''/etc/bar'')]]"
    by code_simp
qed

theorem merge_first_seen_witness:
  "merge_files_from_packages
     [[(''files'', PList [PDict [(''path'', PStr ''/a''), (''mode'', PStr ''0644'')],
                          PDict [(''mode'', PStr ''0600'')]])],
      [(''name'', PStr ''p'')],
      [(''files'', PList [PDict [(''path'', PStr ''/b'')],
                          PDict [(''path'', PStr ''/a''), (''mode'', PStr ''0755'')]])]]
   = Inr [[(''path'', PStr ''/a''), (''mode'', PStr ''0644'')], [(''path'', PStr ''/b'')]]"
proof -
  let ?pkgs = "[[(''files'', PList [PDict [(''path'', PStr ''/a''), (''mode'', PStr ''0644'')],
                          PDict [(''mode'', PStr ''0600'')]])],
      [(''name'', PStr ''p'')],
      [(''files'', PList [PDict [(''path'', PStr ''/b'')],
                          PDict [(''path'', PStr ''/a''), (''mode'', PStr ''0755'')]])]]"
  let ?dss = "[[[(''path'', PStr ''/a''), (''mode'', PStr ''0644'')], [(''mode'', PStr ''0600'')]],
               [],
               [[(''path'', PStr ''/b'')], [(''path'', PStr ''/a''), (''mode'', PStr ''0755'')]]]"
  have wf: "list_all2 pkg_files ?pkgs ?dss"
    by (simp add: pkg_files_def dict_get_def py_or_def str_or_none_def)
  have "first_seen [] (concat ?dss)
          = [[(''path'', PStr ''/a''), (''mode'', PStr ''0644'')], [(''path'', PStr ''/b'')]]"
    by (simp add: dict_get_def)
  with merge_first_seen [of ?pkgs ?dss] wf show ?thesis
    by simp
qed

section \<open>Totality and defaults\<close>

lemma state_from_type_total:
  assumes "str_or_none ftype"
  shows "\<exists>s. state_from_type ftype = Inr s \<and> s \<in> {''directory'', ''link'', ''file''}"
proof (cases ftype)
  case PNone
  have "py_lower [] = []" by (simp add: py_lower_def)
  with PNone show ?thesis
    by (simp add: state_from_type_def py_or_def)
next
  case (PStr s)
  then show ?thesis
    by (simp add: state_from_type_def py_or_def Let_def)
qed (use assms in \<open>simp_all add: str_or_none_def\<close>)

lemma state_from_type_none: "state_from_type PNone = Inr ''file''"
  by code_simp

lemma od_set_keys:
  "map fst (od_set d k v) = (if k \<in> set (map fst d) then map fst d else map fst d @ [k])"
  by (induction d) auto

lemma od_set_lookup: "map_of (od_set d k v) = (map_of d)(k \<mapsto> v)"
  by (induction d) (auto simp: fun_eq_iff)

lemma build_item_shape:
  assumes "state_from_type (dict_get e ''type'') = Inr st"
  shows "\<exists>item. build_item e = Inr item
          \<and> take 7 item =
              [(''follow'', PBool False), (''force'', PBool True),
               (''group'', py_or (dict_get e ''group'') (PStr ''root'')),
               (''mode'', PStr (if dict_get e ''mode'' \<noteq> PNone then py_str (dict_get e ''mode'') else '''')),
               (''owner'', py_or (dict_get e ''owner'') (PStr ''root'')),
               (''path'', py_or (dict_get e ''path'') (PStr '''')),
               (''state'', PStr st)]
          \<and> (drop 7 item = [] \<or> (\<exists>src. st = ''link'' \<and> drop 7 item = [(''src'', PStr src)]))"
  using assms
  by (auto simp: build_item_def Let_def split: option.splits)

lemma build_item_total:
  assumes "str_or_none (dict_get e ''type'')"
  shows "\<exists>item. build_item e = Inr item"
proof -
  from state_from_type_total [OF assms] obtain st
    where "state_from_type (dict_get e ''type'') = Inr st" by blast
  from build_item_shape [OF this] show ?thesis by blast
qed

lemma sanitize_key_total:
  assumes "str_or_none p"
  shows "\<exists>k. sanitize_key (py_or p (PStr '''')) used = Inr (k, k # used)"
proof (cases p)
  case PNone
  then show ?thesis
    by (simp add: py_or_def sanitize_key_str)
next
  case (PStr s)
  then show ?thesis
    by (simp add: py_or_def sanitize_key_str)
qed (use assms in \<open>simp_all add: str_or_none_def\<close>)

lemma category_for_range: "category_for e \<in> set CATEGORY_ORDER"
  by (simp add: category_for_def CATEGORY_ORDER_def Let_def)

lemma build_item_empty:
  "build_item [] =
     Inr [(''follow'', PBool False), (''force'', PBool True), (''group'', PStr ''root''),
          (''mode'', PStr ''''), (''owner'', PStr ''root''), (''path'', PStr ''''),
          (''state'', PStr ''file'')]"
  by code_simp


section \<open>The emitted text\<close>

text \<open>
  The output in the words of the specification: a property has a line when it is
  present and its value is neither \<^verbatim>\<open>None\<close> nor the empty string, or when it is
  present and is follow or force; an item is its key line and its property lines in the
  fixed order; a category is its line and the blocks of its items.
\<close>

definition emitted :: "item \<Rightarrow> string \<Rightarrow> bool" where
  "emitted props k \<longleftrightarrow>
     map_of props k \<noteq> None
     \<and> ((dict_get props k \<noteq> PNone \<and> dict_get props k \<noteq> PStr '''')
        \<or> k = ''follow'' \<or> k = ''force'')"

definition item_block :: "string \<times> item \<Rightarrow> string list" where
  "item_block kp =
     (''    '' @ fst kp @ '':'')
       # map (\<lambda>k. ''      '' @ k @ '': '' @ q (dict_get (snd kp) k))
           (filter (emitted (snd kp)) PROP_ORDER)"

definition category_block :: "grouping \<Rightarrow> string \<Rightarrow> string list" where
  "category_block files cat =
     (''  '' @ cat @ '':'')
       # concat (map item_block (case map_of files cat of None \<Rightarrow> [] | Some m \<Rightarrow> m))"

lemma prop_loop_filter:
  "prop_loop ks props lines =
     lines @ map (\<lambda>k. prop_line k (dict_get props k)) (filter (emitted props) ks)"
proof (induction ks arbitrary: lines)
  case Nil
  show ?case by simp
next
  case (Cons k ks)
  show ?case
  proof (cases "emitted props k")
    case True
    then show ?thesis
      by (auto simp: emitted_def Cons.IH)
  next
    case False
    then show ?thesis
      by (auto simp: emitted_def Cons.IH)
  qed
qed

lemma item_loop_blocks: "item_loop items lines = lines @ concat (map item_block items)"
proof (induction items arbitrary: lines)
  case Nil
  show ?case by simp
next
  case (Cons kp items)
  obtain key props where kp: "kp = (key, props)" by (cases kp)
  show ?case
    by (simp add: kp Cons.IH prop_loop_filter item_block_def prop_line_def)
qed

lemma category_loop_blocks:
  "category_loop cats files lines = lines @ concat (map (category_block files) cats)"
proof (induction cats arbitrary: lines)
  case Nil
  show ?case by simp
next
  case (Cons cat cats)
  show ?case
    by (simp add: Let_def Cons.IH item_loop_blocks category_block_def)
qed

lemma join_lines: "ls \<noteq> [] \<Longrightarrow> join_with sep ls @ sep = concat (map (\<lambda>l. l @ sep) ls)"
  by (induction sep ls rule: join_with.induct) simp_all

lemma yaml_lines_blocks:
  "yaml_lines data =
     ''files:'' # concat (map (category_block (case map_of data ''files'' of None \<Rightarrow> [] | Some f \<Rightarrow> f))
                          CATEGORY_ORDER)"
  by (simp add: yaml_lines_def category_loop_blocks)

lemma q_cases:
  "q (PBool True) = ''true''" "q (PBool False) = ''false''" "q PNone = [CHR 0x27, CHR 0x27]"
  by (simp_all add: q_def)

lemma q_other:
  assumes "\<forall>b. v \<noteq> PBool b" and "v \<noteq> PNone"
  shows "q v = [CHR 0x27] @ double_quotes (py_str v) @ [CHR 0x27]"
  using assms by (cases v) (auto simp: q_def)

lemma double_quotes_step:
  "double_quotes [] = []"
  "double_quotes (c # s) = (if c = CHR 0x27 then [CHR 0x27, CHR 0x27] else [c]) @ double_quotes s"
  by (simp_all add: double_quotes_def)

lemma empty_category_block:
  assumes "map_of files cat = None \<or> map_of files cat = Some []"
  shows "category_block files cat = [''  '' @ cat @ '':'']"
  using assms by (auto simp: category_block_def)

lemma built_item_block:
  assumes "build_item e = Inr item"
  shows "take 3 (item_block (key, item)) =
           [''    '' @ key @ '':'', ''      follow: false'', ''      force: true'']"
proof -
  from assms obtain st where st: "state_from_type (dict_get e ''type'') = Inr st"
    by (cases "state_from_type (dict_get e ''type'')") (simp_all add: build_item_def Let_def)
  from build_item_shape [OF st] assms obtain rest where
    item: "item = (''follow'', PBool False) # (''force'', PBool True) # rest"
    by (metis append_take_drop_id append_Cons sum.inject(2))
  have "emitted item ''follow''" "emitted item ''force''"
    by (simp_all add: item emitted_def)
  moreover have "dict_get item ''follow'' = PBool False" "dict_get item ''force'' = PBool True"
    by (simp_all add: item dict_get_def)
  ultimately show ?thesis
    by (simp add: item_block_def PROP_ORDER_def q_cases)
qed

lemma truthy_not_empty: "truthy v \<Longrightarrow> v \<noteq> PNone \<and> v \<noteq> PStr ''''"
  by (cases v) simp_all

lemma state_from_type_nonempty: "state_from_type t = Inr st \<Longrightarrow> st \<noteq> []"
  by (auto simp: state_from_type_def Let_def split: pyval.splits if_splits)

lemma build_item_exact:
  assumes "build_item e = Inr item"
  shows "\<exists>gv ms ov pv st srcs.
           item = [(''follow'', PBool False), (''force'', PBool True), (''group'', gv),
                   (''mode'', PStr ms), (''owner'', ov), (''path'', pv), (''state'', PStr st)] @ srcs
           \<and> truthy gv \<and> truthy ov \<and> pv \<noteq> PNone \<and> st \<noteq> []
           \<and> (srcs = [] \<or> (\<exists>s. s \<noteq> [] \<and> srcs = [(''src'', PStr s)]))"
proof -
  from assms obtain st where st: "state_from_type (dict_get e ''type'') = Inr st"
    by (cases "state_from_type (dict_get e ''type'')") (simp_all add: build_item_def Let_def)
  let ?G = "py_or (dict_get e ''group'') (PStr ''root'')"
  let ?Ow = "py_or (dict_get e ''owner'') (PStr ''root'')"
  let ?Pv = "py_or (dict_get e ''path'') (PStr '''')"
  let ?ms = "if dict_get e ''mode'' \<noteq> PNone then py_str (dict_get e ''mode'') else ''''"
  let ?base = "[(''follow'', PBool False), (''force'', PBool True), (''group'', ?G),
                (''mode'', PStr ?ms), (''owner'', ?Ow), (''path'', ?Pv), (''state'', PStr st)]"
  have g: "truthy ?G" and o: "truthy ?Ow" and p: "?Pv \<noteq> PNone"
    by (auto simp: py_or_def)
  from assms st have "item = ?base @ [] \<or> (\<exists>s. s \<noteq> [] \<and> item = ?base @ [(''src'', PStr s)])"
    by (auto simp: build_item_def Let_def split: option.splits if_splits)
  with g o p state_from_type_nonempty [OF st] show ?thesis
    by blast
qed

lemma item_block_explicit:
  "item_block (key, props) =
     (''    '' @ key @ '':'')
       # map (\<lambda>k. ''      '' @ k @ '': '' @ q (dict_get props k))
           (filter (emitted props)
              [''follow'', ''force'', ''group'', ''mode'', ''owner'', ''path'', ''state'', ''src''])"
  by (simp add: item_block_def PROP_ORDER_def)

lemma built_item_lines:
  assumes "build_item e = Inr item"
  shows "item_block (key, item) =
     [''    '' @ key @ '':'', ''      follow: false'', ''      force: true'',
      ''      group: '' @ q (dict_get item ''group'')]
     @ (if dict_get item ''mode'' = PStr '''' then []
        else [''      mode: '' @ q (dict_get item ''mode'')])
     @ [''      owner: '' @ q (dict_get item ''owner'')]
     @ (if dict_get item ''path'' = PStr '''' then []
        else [''      path: '' @ q (dict_get item ''path'')])
     @ [''      state: '' @ q (dict_get item ''state'')]
     @ (if map_of item ''src'' = None then []
        else [''      src: '' @ q (dict_get item ''src'')])"
proof -
  from build_item_exact [OF assms] obtain gv ms ov pv st srcs where
    item: "item = [(''follow'', PBool False), (''force'', PBool True), (''group'', gv),
                   (''mode'', PStr ms), (''owner'', ov), (''path'', pv), (''state'', PStr st)] @ srcs"
    and g: "truthy gv" and o: "truthy ov" and p: "pv \<noteq> PNone" and st: "st \<noteq> []"
    and srcs: "srcs = [] \<or> (\<exists>s. s \<noteq> [] \<and> srcs = [(''src'', PStr s)])"
    by blast
  from g o have ne: "gv \<noteq> PNone" "gv \<noteq> PStr ''''" "ov \<noteq> PNone" "ov \<noteq> PStr ''''"
    using truthy_not_empty by blast+
  from srcs show ?thesis
  proof
    assume "srcs = []"
    with ne p st show ?thesis
      unfolding item_block_explicit
      by (simp add: item emitted_def dict_get_def q_cases)
  next
    assume "\<exists>s. s \<noteq> [] \<and> srcs = [(''src'', PStr s)]"
    then obtain s where "s \<noteq> []" "srcs = [(''src'', PStr s)]" by blast
    with ne p st show ?thesis
      unfolding item_block_explicit
      by (simp add: item emitted_def dict_get_def q_cases)
  qed
qed

text \<open>
  C7. The lines written by the built-in emitter are the line files, then for each of
  the five categories configuration, artifacts, docs, licenses, general, in this order,
  the category line followed by the blocks of its items, an empty or missing category
  contributing its line alone; the text is these lines, each ended by a newline. The
  block of an item is its key line and then, going through follow, force, group, mode,
  owner, path, state, src in this order, one line for each property that is present
  with a value other than \<^verbatim>\<open>None\<close> and the empty string, or is present and is
  follow or force. A Boolean is written true or false, \<^verbatim>\<open>None\<close> as two quotes,
  every other value as its text between single quotes with each single quote doubled.
  For an item that comes from the item builder the block is: the key line, follow:
  false, force: true, group, mode unless it is the empty string, owner, path unless it
  is the empty string, state, and src when the item has one.
\<close>

theorem yaml_dump_format:
  "yaml_lines data =
     ''files:'' # concat (map (category_block (case map_of data ''files'' of None \<Rightarrow> [] | Some f \<Rightarrow> f))
                          [''configuration'', ''artifacts'', ''docs'', ''licenses'', ''general''])
   \<and> yaml_dump data = concat (map (\<lambda>l. l @ [CHR 0x0A]) (yaml_lines data))
   \<and> category_block files cat =
       (''  '' @ cat @ '':'')
         # concat (map item_block (case map_of files cat of None \<Rightarrow> [] | Some m \<Rightarrow> m))
   \<and> (map_of files cat = None \<or> map_of files cat = Some [] \<longrightarrow>
        category_block files cat = [''  '' @ cat @ '':''])
   \<and> item_block (key, props) =
       (''    '' @ key @ '':'')
         # map (\<lambda>k. ''      '' @ k @ '': '' @ q (dict_get props k))
             (filter (emitted props)
                [''follow'', ''force'', ''group'', ''mode'', ''owner'', ''path'', ''state'', ''src''])
   \<and> (emitted props k \<longleftrightarrow>
        map_of props k \<noteq> None
        \<and> ((dict_get props k \<noteq> PNone \<and> dict_get props k \<noteq> PStr '''')
           \<or> k = ''follow'' \<or> k = ''force''))
   \<and> item_loop items lines = lines @ concat (map item_block items)
   \<and> prop_loop PROP_ORDER props lines =
       lines @ map (\<lambda>k. ''      '' @ k @ '': '' @ q (dict_get props k))
                 (filter (emitted props)
                    [''follow'', ''force'', ''group'', ''mode'', ''owner'', ''path'', ''state'', ''src''])
   \<and> q (PBool True) = ''true'' \<and> q (PBool False) = ''false'' \<and> q PNone = [CHR 0x27, CHR 0x27]
   \<and> ((\<forall>b. v \<noteq> PBool b) \<and> v \<noteq> PNone \<longrightarrow>
        q v = [CHR 0x27] @ double_quotes (py_str v) @ [CHR 0x27])
   \<and> double_quotes [] = []
   \<and> double_quotes (c # s) = (if c = CHR 0x27 then [CHR 0x27, CHR 0x27] else [c]) @ double_quotes s
   \<and> (build_item e = Inr item \<longrightarrow>
        item_block (key, item) =
          [''    '' @ key @ '':'', ''      follow: false'', ''      force: true'',
           ''      group: '' @ q (dict_get item ''group'')]
          @ (if dict_get item ''mode'' = PStr '''' then []
             else [''      mode: '' @ q (dict_get item ''mode'')])
          @ [''      owner: '' @ q (dict_get item ''owner'')]
          @ (if dict_get item ''path'' = PStr '''' then []
             else [''      path: '' @ q (dict_get item ''path'')])
          @ [''      state: '' @ q (dict_get item ''state'')]
          @ (if map_of item ''src'' = None then []
             else [''      src: '' @ q (dict_get item ''src'')]))"
proof -
  have l0: "yaml_lines data =
     ''files:'' # concat (map (category_block (case map_of data ''files'' of None \<Rightarrow> [] | Some f \<Rightarrow> f))
                          [''configuration'', ''artifacts'', ''docs'', ''licenses'', ''general''])"
    using yaml_lines_blocks [of data] by (simp add: CATEGORY_ORDER_def)
  have ne: "yaml_lines data \<noteq> []"
    by (simp add: yaml_lines_blocks)
  have a: "yaml_dump data = concat (map (\<lambda>l. l @ [CHR 0x0A]) (yaml_lines data))"
    unfolding yaml_dump_def by (rule join_lines [OF ne])
  have cb: "category_block files cat =
       (''  '' @ cat @ '':'')
         # concat (map item_block (case map_of files cat of None \<Rightarrow> [] | Some m \<Rightarrow> m))"
    by (simp add: category_block_def)
  have em: "emitted props k \<longleftrightarrow>
        map_of props k \<noteq> None
        \<and> ((dict_get props k \<noteq> PNone \<and> dict_get props k \<noteq> PStr '''')
           \<or> k = ''follow'' \<or> k = ''force'')"
    by (simp add: emitted_def)
  have b: "prop_loop PROP_ORDER props lines =
       lines @ map (\<lambda>k. ''      '' @ k @ '': '' @ q (dict_get props k))
                 (filter (emitted props)
                    [''follow'', ''force'', ''group'', ''mode'', ''owner'', ''path'', ''state'', ''src''])"
    by (simp add: prop_loop_filter prop_line_def) (simp add: PROP_ORDER_def)
  have c: "(\<forall>b. v \<noteq> PBool b) \<and> v \<noteq> PNone \<longrightarrow>
        q v = [CHR 0x27] @ double_quotes (py_str v) @ [CHR 0x27]"
    using q_other [of v] by blast
  have d: "map_of files cat = None \<or> map_of files cat = Some [] \<longrightarrow>
        category_block files cat = [''  '' @ cat @ '':'']"
    using empty_category_block [of files cat] by blast
  have e: "build_item e = Inr item \<longrightarrow>
        item_block (key, item) =
          [''    '' @ key @ '':'', ''      follow: false'', ''      force: true'',
           ''      group: '' @ q (dict_get item ''group'')]
          @ (if dict_get item ''mode'' = PStr '''' then []
             else [''      mode: '' @ q (dict_get item ''mode'')])
          @ [''      owner: '' @ q (dict_get item ''owner'')]
          @ (if dict_get item ''path'' = PStr '''' then []
             else [''      path: '' @ q (dict_get item ''path'')])
          @ [''      state: '' @ q (dict_get item ''state'')]
          @ (if map_of item ''src'' = None then []
             else [''      src: '' @ q (dict_get item ''src'')])"
    using built_item_lines [of e item key] by blast
  from l0 a cb d item_block_explicit [of key props] em item_loop_blocks [of items lines] b c e
    q_cases double_quotes_step(1) double_quotes_step(2) [of c s]
  show ?thesis by blast
qed

theorem yaml_dump_format_witness:
  "yaml_lines [(''files'', [(''general'', [(''k'',
       [(''src'', PStr ''/usr/bin/sh''), (''state'', PStr ''link''), (''path'', PStr ''/usr/sbin/sh''),
        (''owner'', PStr ''root''), (''mode'', PStr ''0777''), (''group'', PStr ''wheel''),
        (''force'', PBool True), (''follow'', PBool False)])])])]
     = [''files:'', ''  configuration:'', ''  artifacts:'', ''  docs:'', ''  licenses:'',
        ''  general:'', ''    k:'', ''      follow: false'', ''      force: true'',
        ''      group: '' @ [CHR 0x27] @ ''wheel'' @ [CHR 0x27],
        ''      mode: '' @ [CHR 0x27] @ ''0777'' @ [CHR 0x27],
        ''      owner: '' @ [CHR 0x27] @ ''root'' @ [CHR 0x27],
        ''      path: '' @ [CHR 0x27] @ ''/usr/sbin/sh'' @ [CHR 0x27],
        ''      state: '' @ [CHR 0x27] @ ''link'' @ [CHR 0x27],
        ''      src: '' @ [CHR 0x27] @ ''/usr/bin/sh'' @ [CHR 0x27]]
   \<and> q (PStr [CHR ''o'', CHR 0x27, CHR ''c'']) = [CHR 0x27, CHR ''o'', CHR 0x27, CHR 0x27, CHR ''c'', CHR 0x27]
   \<and> category_block [(''docs'', [])] ''docs'' = [''  docs:'']
   \<and> item_block (''svc'',
         [(''follow'', PBool False), (''force'', PBool True), (''group'', PStr ''root''),
          (''mode'', PStr ''''), (''owner'', PStr ''root''), (''path'', PStr ''/usr/sbin/service''),
          (''state'', PStr ''link''), (''src'', PStr ''/usr/bin/sh'')])
       = [''    svc:'', ''      follow: false'', ''      force: true'',
          ''      group: '' @ [CHR 0x27] @ ''root'' @ [CHR 0x27],
          ''      owner: '' @ [CHR 0x27] @ ''root'' @ [CHR 0x27],
          ''      path: '' @ [CHR 0x27] @ ''/usr/sbin/service'' @ [CHR 0x27],
          ''      state: '' @ [CHR 0x27] @ ''link'' @ [CHR 0x27],
          ''      src: '' @ [CHR 0x27] @ ''/usr/bin/sh'' @ [CHR 0x27]]"
proof -
  let ?item = "[(''src'', PStr ''/usr/bin/sh''), (''state'', PStr ''link''), (''path'', PStr ''/usr/sbin/sh''),
        (''owner'', PStr ''root''), (''mode'', PStr ''0777''), (''group'', PStr ''wheel''),
        (''force'', PBool True), (''follow'', PBool False)]"
  let ?data = "[(''files'', [(''general'', [(''k'', ?item)])])]"
  let ?e = "[(''path'', PStr ''/usr/sbin/service''), (''type'', PStr ''link''),
             (''linkto'', PStr ''../bin/sh'')]"
  let ?built = "[(''follow'', PBool False), (''force'', PBool True), (''group'', PStr ''root''),
          (''mode'', PStr ''''), (''owner'', PStr ''root''), (''path'', PStr ''/usr/sbin/service''),
          (''state'', PStr ''link''), (''src'', PStr ''/usr/bin/sh'')]"
  note th = yaml_dump_format [where data = ?data and files = "[(''docs'', [])]" and cat = "''docs''"
      and key = "''svc''" and props = ?item and k = "''src''" and items = "[]" and lines = "[]"
      and v = "PStr [CHR ''o'', CHR 0x27, CHR ''c'']" and c = "CHR ''o''" and s = "[]"
      and e = ?e and item = ?built]
  have blocks: "concat (map (category_block (case map_of ?data ''files'' of None \<Rightarrow> [] | Some f \<Rightarrow> f))
                          [''configuration'', ''artifacts'', ''docs'', ''licenses'', ''general''])
       = [''  configuration:'', ''  artifacts:'', ''  docs:'', ''  licenses:'',
        ''  general:'', ''    k:'', ''      follow: false'', ''      force: true'',
        ''      group: '' @ [CHR 0x27] @ ''wheel'' @ [CHR 0x27],
        ''      mode: '' @ [CHR 0x27] @ ''0777'' @ [CHR 0x27],
        ''      owner: '' @ [CHR 0x27] @ ''root'' @ [CHR 0x27],
        ''      path: '' @ [CHR 0x27] @ ''/usr/sbin/sh'' @ [CHR 0x27],
        ''      state: '' @ [CHR 0x27] @ ''link'' @ [CHR 0x27],
        ''      src: '' @ [CHR 0x27] @ ''/usr/bin/sh'' @ [CHR 0x27]]"
    by code_simp
  note lines_eq = th [THEN conjunct1]
  note empty_cat = th [THEN conjunct2, THEN conjunct2, THEN conjunct2, THEN conjunct1]
  note q_quoted = th [THEN conjunct2, THEN conjunct2, THEN conjunct2, THEN conjunct2, THEN conjunct2, THEN conjunct2, THEN conjunct2, THEN conjunct2, THEN conjunct2, THEN conjunct2, THEN conjunct2, THEN conjunct1]
  note built = th [THEN conjunct2, THEN conjunct2, THEN conjunct2, THEN conjunct2, THEN conjunct2, THEN conjunct2, THEN conjunct2, THEN conjunct2, THEN conjunct2, THEN conjunct2, THEN conjunct2, THEN conjunct2, THEN conjunct2, THEN conjunct2]
  from lines_eq have a: "yaml_lines ?data
     = [''files:'', ''  configuration:'', ''  artifacts:'', ''  docs:'', ''  licenses:'',
        ''  general:'', ''    k:'', ''      follow: false'', ''      force: true'',
        ''      group: '' @ [CHR 0x27] @ ''wheel'' @ [CHR 0x27],
        ''      mode: '' @ [CHR 0x27] @ ''0777'' @ [CHR 0x27],
        ''      owner: '' @ [CHR 0x27] @ ''root'' @ [CHR 0x27],
        ''      path: '' @ [CHR 0x27] @ ''/usr/sbin/sh'' @ [CHR 0x27],
        ''      state: '' @ [CHR 0x27] @ ''link'' @ [CHR 0x27],
        ''      src: '' @ [CHR 0x27] @ ''/usr/bin/sh'' @ [CHR 0x27]]"
    by (simp only: blocks)
  have nb: "(\<forall>b. PStr [CHR ''o'', CHR 0x27, CHR ''c''] \<noteq> PBool b) \<and> PStr [CHR ''o'', CHR 0x27, CHR ''c''] \<noteq> PNone"
    by simp
  with q_quoted have "q (PStr [CHR ''o'', CHR 0x27, CHR ''c''])
                  = [CHR 0x27] @ double_quotes (py_str (PStr [CHR ''o'', CHR 0x27, CHR ''c''])) @ [CHR 0x27]"
    by blast
  moreover have "double_quotes (py_str (PStr [CHR ''o'', CHR 0x27, CHR ''c''])) = [CHR ''o'', CHR 0x27, CHR 0x27, CHR ''c'']"
    by code_simp
  ultimately have b: "q (PStr [CHR ''o'', CHR 0x27, CHR ''c'']) = [CHR 0x27, CHR ''o'', CHR 0x27, CHR 0x27, CHR ''c'', CHR 0x27]"
    by simp
  have "map_of [(''docs'', ([] :: catmap))] ''docs'' = None \<or> map_of [(''docs'', ([] :: catmap))] ''docs'' = Some []"
    by simp
  with empty_cat have c: "category_block [(''docs'', [])] ''docs'' = [''  docs:'']"
    by simp
  have bi: "build_item ?e = Inr ?built" by code_simp
  with built have "item_block (''svc'', ?built) =
          [''    '' @ ''svc'' @ '':'', ''      follow: false'', ''      force: true'',
           ''      group: '' @ q (dict_get ?built ''group'')]
          @ (if dict_get ?built ''mode'' = PStr '''' then []
             else [''      mode: '' @ q (dict_get ?built ''mode'')])
          @ [''      owner: '' @ q (dict_get ?built ''owner'')]
          @ (if dict_get ?built ''path'' = PStr '''' then []
             else [''      path: '' @ q (dict_get ?built ''path'')])
          @ [''      state: '' @ q (dict_get ?built ''state'')]
          @ (if map_of ?built ''src'' = None then []
             else [''      src: '' @ q (dict_get ?built ''src'')])"
    by blast
  also have "\<dots> = [''    svc:'', ''      follow: false'', ''      force: true'',
          ''      group: '' @ [CHR 0x27] @ ''root'' @ [CHR 0x27],
          ''      owner: '' @ [CHR 0x27] @ ''root'' @ [CHR 0x27],
          ''      path: '' @ [CHR 0x27] @ ''/usr/sbin/service'' @ [CHR 0x27],
          ''      state: '' @ [CHR 0x27] @ ''link'' @ [CHR 0x27],
          ''      src: '' @ [CHR 0x27] @ ''/usr/bin/sh'' @ [CHR 0x27]]"
    by code_simp
  finally have d: "item_block (''svc'', ?built) = [''    svc:'', ''      follow: false'', ''      force: true'',
          ''      group: '' @ [CHR 0x27] @ ''root'' @ [CHR 0x27],
          ''      owner: '' @ [CHR 0x27] @ ''root'' @ [CHR 0x27],
          ''      path: '' @ [CHR 0x27] @ ''/usr/sbin/service'' @ [CHR 0x27],
          ''      state: '' @ [CHR 0x27] @ ''link'' @ [CHR 0x27],
          ''      src: '' @ [CHR 0x27] @ ''/usr/bin/sh'' @ [CHR 0x27]]" .
  from a b c d show ?thesis by blast
qed

section \<open>The assembled document\<close>

text \<open>All keys of a grouping, category after category.\<close>

definition all_keys :: "grouping \<Rightarrow> string list" where
  "all_keys g = concat (map (\<lambda>cm. map fst (snd cm)) g)"

definition typed_record :: "entry \<Rightarrow> bool" where
  "typed_record f \<longleftrightarrow> str_or_none (dict_get f ''type'') \<and> str_or_none (dict_get f ''path'')"

lemma od_set_new: "k \<notin> fst ` set d \<Longrightarrow> od_set d k v = d @ [(k, v)]"
  by (induction d) auto

lemma od_set_split:
  assumes "map_of g k = Some m"
  shows "\<exists>g1 g2. g = g1 @ (k, m) # g2 \<and> od_set g k v = g1 @ (k, v) # g2"
  using assms
proof (induction g)
  case Nil
  then show ?case by simp
next
  case (Cons p g)
  show ?case
  proof (cases "fst p = k")
    case True
    with Cons.prems have "p = (k, m)" by (cases p) simp
    then have "p # g = [] @ (k, m) # g \<and> od_set (p # g) k v = [] @ (k, v) # g"
      by simp
    then show ?thesis by blast
  next
    case False
    with Cons.prems have "map_of g k = Some m" by (cases p) auto
    from Cons.IH [OF this] obtain g1 g2
      where "g = g1 @ (k, m) # g2" "od_set g k v = g1 @ (k, v) # g2" by blast
    with False have "p # g = (p # g1) @ (k, m) # g2
        \<and> od_set (p # g) k v = (p # g1) @ (k, v) # g2"
      by simp
    then show ?thesis by blast
  qed
qed

lemma od_of_pairs_distinct:
  "distinct (map fst (acc @ xs)) \<Longrightarrow>
     foldl (\<lambda>d kv. od_set d (fst kv) (snd kv)) acc xs = acc @ xs"
proof (induction xs arbitrary: acc)
  case Nil
  show ?case by simp
next
  case (Cons x xs)
  from Cons.prems have "fst x \<notin> fst ` set acc" by auto
  then have "od_set acc (fst x) (snd x) = acc @ [x]"
    by (simp add: od_set_new)
  moreover from Cons.prems have "distinct (map fst ((acc @ [x]) @ xs))" by simp
  ultimately show ?case
    using Cons.IH [of "acc @ [x]"] by simp
qed

lemma od_of_pairs_id: "distinct (map fst xs) \<Longrightarrow> od_of_pairs xs = xs"
  using od_of_pairs_distinct [of "[]" xs] by (simp add: od_of_pairs_def)

lemma category_order_distinct: "distinct CATEGORY_ORDER"
  by (simp add: CATEGORY_ORDER_def)

lemma initial_grouping:
  "od_of_pairs (map (\<lambda>k. (k, [])) CATEGORY_ORDER) = map (\<lambda>k. (k, [])) CATEGORY_ORDER"
  by (rule od_of_pairs_id) (simp add: o_def category_order_distinct)

lemma category_pairs_lookup:
  assumes "\<forall>kv\<in>set xs. map_of g (fst kv) = Some (snd kv)"
  shows "category_pairs (map fst xs) g = Inr xs"
  using assms by (induction xs) (auto simp: od_get_def)

lemma category_pairs_self:
  assumes "distinct (map fst g)"
  shows "category_pairs (map fst g) g = Inr g"
  by (rule category_pairs_lookup) (use assms in auto)

lemma category_pairs_cong:
  assumes "map_of g = map_of g'"
  shows "category_pairs ks g = category_pairs ks g'"
proof (induction ks)
  case Nil
  show ?case by simp
next
  case (Cons k ks)
  from assms have "od_get g k = od_get g' k"
    by (simp add: od_get_def)
  then show ?case
    by (auto simp: Cons.IH split: sum.splits)
qed

text \<open>The state of the loop: the categories in their order, no key twice, every key in use.\<close>

definition loop_inv :: "string list \<Rightarrow> grouping \<Rightarrow> bool" where
  "loop_inv used g \<longleftrightarrow>
     map fst g = CATEGORY_ORDER \<and> distinct (all_keys g) \<and> set (all_keys g) \<subseteq> set used"

lemma loop_inv_initial: "loop_inv [] (map (\<lambda>k. (k, [])) CATEGORY_ORDER)"
  by (simp add: loop_inv_def all_keys_def o_def CATEGORY_ORDER_def)

lemma loop_inv_lookup:
  assumes "loop_inv used g" and "cat \<in> set CATEGORY_ORDER"
  shows "\<exists>m. map_of g cat = Some m"
proof -
  from assms have "cat \<in> fst ` set g"
    by (metis loop_inv_def set_map)
  then show ?thesis
    by (metis domD dom_map_of_conv_image_fst)
qed

lemma loop_inv_step:
  assumes inv: "loop_inv used g" and fresh: "key \<notin> set used" and m: "map_of g cat = Some m"
  shows "loop_inv (key # used) (od_set g cat (od_set m key item))
         \<and> length (all_keys (od_set g cat (od_set m key item))) = Suc (length (all_keys g))"
proof -
  from od_set_split [OF m] obtain g1 g2 where
    g: "g = g1 @ (cat, m) # g2"
    and upd: "od_set g cat (od_set m key item) = g1 @ (cat, od_set m key item) # g2"
    by blast
  from inv fresh have nk: "key \<notin> set (all_keys g)"
    by (auto simp: loop_inv_def)
  then have "key \<notin> fst ` set m"
    by (auto simp: g all_keys_def)
  then have new: "od_set m key item = m @ [(key, item)]"
    by (rule od_set_new)
  from upd have upd': "od_set g cat (m @ [(key, item)]) = g1 @ (cat, m @ [(key, item)]) # g2"
    by (simp only: new)
  have keys: "all_keys (od_set g cat (od_set m key item))
                = all_keys g1 @ (map fst m @ [key]) @ all_keys g2"
    by (simp add: new upd' all_keys_def)
  have old: "all_keys g = all_keys g1 @ map fst m @ all_keys g2"
    by (simp add: g all_keys_def)
  from inv have d: "distinct (all_keys g)" and sub: "set (all_keys g) \<subseteq> set used"
    and cats: "map fst g = CATEGORY_ORDER"
    by (simp_all add: loop_inv_def)
  have "distinct (all_keys g1 @ (map fst m @ [key]) @ all_keys g2)"
    using d nk unfolding old by auto
  moreover have "set (all_keys g1 @ (map fst m @ [key]) @ all_keys g2) \<subseteq> set (key # used)"
    using sub unfolding old by auto
  moreover have "cat \<in> set (map fst g)"
    by (simp add: g)
  then have "map fst (od_set g cat (od_set m key item)) = CATEGORY_ORDER"
    by (simp only: od_set_keys cats if_True)
  moreover have "length (all_keys g1 @ (map fst m @ [key]) @ all_keys g2) = Suc (length (all_keys g))"
    unfolding old by simp
  ultimately show ?thesis
    by (simp add: loop_inv_def keys)
qed

lemma build_loop_inv:
  assumes "loop_inv used g" and "build_loop files used g = Inr (used', g')"
  shows "loop_inv used' g' \<and> length (all_keys g') = length (all_keys g) + length files"
  using assms
proof (induction files arbitrary: used g)
  case Nil
  then show ?case by simp
next
  case (Cons f files)
  let ?cat = "category_for f"
  from Cons.prems(2) obtain key u1 where
    sk: "sanitize_key (py_or (dict_get f ''path'') (PStr '''')) used = Inr (key, u1)"
    by (cases "sanitize_key (py_or (dict_get f ''path'') (PStr '''')) used") auto
  from sanitize_key_fresh [OF sk] have fresh: "key \<notin> set used" and u1: "u1 = key # used"
    by simp_all
  from Cons.prems(2) sk obtain item where bi: "build_item f = Inr item"
    by (cases "build_item f") auto
  from loop_inv_lookup [OF Cons.prems(1) category_for_range [of f]]
  obtain m where m: "map_of g ?cat = Some m" by blast
  from Cons.prems(2) have rest:
    "build_loop files (key # used) (od_set g ?cat (od_set m key item)) = Inr (used', g')"
    by (simp add: sk bi u1 m od_get_def Let_def)
  from loop_inv_step [OF Cons.prems(1) fresh m, of item]
  have inv': "loop_inv (key # used) (od_set g ?cat (od_set m key item))"
    and len: "length (all_keys (od_set g ?cat (od_set m key item))) = Suc (length (all_keys g))"
    by simp_all
  from Cons.IH [OF inv' rest] len show ?case by simp
qed

lemma build_loop_total:
  assumes "loop_inv used g" and "list_all typed_record files"
  shows "\<exists>used' g'. build_loop files used g = Inr (used', g')"
  using assms
proof (induction files arbitrary: used g)
  case Nil
  show ?case by simp
next
  case (Cons f files)
  let ?cat = "category_for f"
  from Cons.prems(2) have tf: "typed_record f" and tr: "list_all typed_record files"
    by simp_all
  from tf sanitize_key_total obtain key where
    sk: "sanitize_key (py_or (dict_get f ''path'') (PStr '''')) used = Inr (key, key # used)"
    unfolding typed_record_def by blast
  from sanitize_key_fresh [OF sk] have fresh: "key \<notin> set used" by simp
  from tf build_item_total obtain item where bi: "build_item f = Inr item"
    unfolding typed_record_def by blast
  from loop_inv_lookup [OF Cons.prems(1) category_for_range [of f]]
  obtain m where m: "map_of g ?cat = Some m" by blast
  from loop_inv_step [OF Cons.prems(1) fresh m, of item]
  have inv': "loop_inv (key # used) (od_set g ?cat (od_set m key item))" by simp
  from Cons.IH [OF inv' tr] show ?case
    by (simp add: sk bi m od_get_def Let_def)
qed

lemma assemble_document:
  assumes "loop_inv used g" and "assemble_from used g files = Inr doc"
  shows "\<exists>g'. doc = [(''files'', g')] \<and> map fst g' = CATEGORY_ORDER
           \<and> distinct (all_keys g')
           \<and> length (all_keys g') = length (all_keys g) + length files"
proof -
  from assms(2) obtain used' g' where bl: "build_loop files used g = Inr (used', g')"
    by (cases "build_loop files used g") (auto simp: assemble_from_def)
  from build_loop_inv [OF assms(1) bl]
  have inv: "loop_inv used' g'"
    and len: "length (all_keys g') = length (all_keys g) + length files"
    by simp_all
  then have cats: "map fst g' = CATEGORY_ORDER" and d: "distinct (all_keys g')"
    by (simp_all add: loop_inv_def)
  have dk: "distinct (map fst g')"
    by (simp add: cats category_order_distinct)
  have "category_pairs CATEGORY_ORDER g' = Inr g'"
    using category_pairs_self [OF dk] by (simp add: cats)
  with assms(2) bl have "doc = [(''files'', g')]"
    by (simp add: assemble_from_def od_of_pairs_id [OF dk])
  with cats d len show ?thesis by blast
qed

text \<open>
  C2. Whenever the assembly returns a document, the document has the single root key
  files, bound to the five categories configuration, artifacts, docs, licenses, general,
  each once and in this order, and no key occurs twice among the entries of all
  categories together; every record has its own entry. On records whose type and path
  are missing, \<^verbatim>\<open>None\<close> or strings the assembly does return a document. With no
  record the five categories are all empty.
\<close>

theorem build_yaml_data_shape:
  "(build_yaml_data files = Inr doc \<longrightarrow>
      (\<exists>g. doc = [(''files'', g)]
         \<and> map fst g = [''configuration'', ''artifacts'', ''docs'', ''licenses'', ''general'']
         \<and> distinct (all_keys g)
         \<and> length (all_keys g) = length files))
   \<and> (list_all typed_record files \<longrightarrow> (\<exists>d. build_yaml_data files = Inr d))
   \<and> build_yaml_data [] =
       Inr [(''files'', [(''configuration'', []), (''artifacts'', []), (''docs'', []),
                         (''licenses'', []), (''general'', [])])]"
proof (intro conjI impI)
  assume "build_yaml_data files = Inr doc"
  then have a: "assemble_from [] (map (\<lambda>k. (k, [])) CATEGORY_ORDER) files = Inr doc"
    by (simp add: build_yaml_data_def initial_grouping)
  have "all_keys (map (\<lambda>k. (k, [])) CATEGORY_ORDER) = []"
    by (simp add: all_keys_def o_def CATEGORY_ORDER_def)
  with assemble_document [OF loop_inv_initial a]
  show "\<exists>g. doc = [(''files'', g)]
         \<and> map fst g = [''configuration'', ''artifacts'', ''docs'', ''licenses'', ''general'']
         \<and> distinct (all_keys g)
         \<and> length (all_keys g) = length files"
    by (simp add: CATEGORY_ORDER_def)
next
  assume "list_all typed_record files"
  from build_loop_total [OF loop_inv_initial this]
  obtain used' g' where bl:
    "build_loop files [] (map (\<lambda>k. (k, [])) CATEGORY_ORDER) = Inr (used', g')"
    by blast
  from build_loop_inv [OF loop_inv_initial bl] have "map fst g' = CATEGORY_ORDER"
    by (simp add: loop_inv_def)
  then have "category_pairs CATEGORY_ORDER g' = Inr g'"
    using category_pairs_self [of g'] by (simp add: category_order_distinct)
  with bl show "\<exists>d. build_yaml_data files = Inr d"
    by (simp add: build_yaml_data_def initial_grouping assemble_from_def)
next
  show "build_yaml_data [] =
       Inr [(''files'', [(''configuration'', []), (''artifacts'', []), (''docs'', []),
                         (''licenses'', []), (''general'', [])])]"
    by code_simp
qed

theorem build_yaml_data_shape_witness:
  "(\<exists>g. build_yaml_data [[(''path'', PStr ''/etc/foo.conf''), (''flags'', PList [PStr ''config''])],
                           [(''path'', PStr ''/etc/foo_conf''), (''type'', PStr ''link'')]]
           = Inr [(''files'', g)]
        \<and> map fst g = [''configuration'', ''artifacts'', ''docs'', ''licenses'', ''general'']
        \<and> distinct (all_keys g) \<and> length (all_keys g) = 2)"
proof -
  let ?files = "[[(''path'', PStr ''/etc/foo.conf''), (''flags'', PList [PStr ''config''])],
                 [(''path'', PStr ''/etc/foo_conf''), (''type'', PStr ''link'')]]"
  have "list_all typed_record ?files"
    by (simp add: typed_record_def dict_get_def str_or_none_def)
  with build_yaml_data_shape [of ?files] obtain d where d: "build_yaml_data ?files = Inr d"
    by blast
  with build_yaml_data_shape [of ?files d] show ?thesis
    by auto
qed

section \<open>Determinism\<close>

lemma od_get_cong: "map_of g = map_of g' \<Longrightarrow> od_get g k = od_get g' k"
  by (simp add: od_get_def)

lemma build_loop_cong:
  assumes "set u = set u'" and "map_of g = map_of g'"
  shows "rel_sum (=) (\<lambda>r r'. set (fst r) = set (fst r') \<and> map_of (snd r) = map_of (snd r'))
           (build_loop files u g) (build_loop files u' g')"
  using assms
proof (induction files arbitrary: u u' g g')
  case Nil
  then show ?case by simp
next
  case (Cons f files)
  let ?p = "py_or (dict_get f ''path'') (PStr '''')"
  let ?cat = "category_for f"
  note sc = sanitize_key_cong [OF Cons.prems(1), of ?p]
  show ?case
  proof (cases "sanitize_key ?p u")
    case (Inl err)
    with sc have "sanitize_key ?p u' = Inl err"
      by (cases "sanitize_key ?p u'") simp_all
    with Inl show ?thesis by simp
  next
    case (Inr ku)
    obtain key u1 where ku: "ku = (key, u1)" by (cases ku)
    from sc Inr ku obtain u1' where sk': "sanitize_key ?p u' = Inr (key, u1')"
      by (cases "sanitize_key ?p u'") auto
    from sanitize_key_fresh [of ?p u key u1] Inr ku have u1: "u1 = key # u" by simp
    from sanitize_key_fresh [OF sk'] have u1': "u1' = key # u'" by simp
    show ?thesis
    proof (cases "build_item f")
      case (Inl err)
      with Inr ku sk' show ?thesis by simp
    next
      case bi: (Inr item)
      show ?thesis
      proof (cases "map_of g ?cat")
        case None
        with Cons.prems(2) have "map_of g' ?cat = None" by simp
        with None Inr ku sk' bi show ?thesis
          by (simp add: od_get_def)
      next
        case (Some m)
        with Cons.prems(2) have some': "map_of g' ?cat = Some m" by simp
        have "set (key # u) = set (key # u')"
          using Cons.prems(1) by simp
        moreover have "map_of (od_set g ?cat (od_set m key item))
                        = map_of (od_set g' ?cat (od_set m key item))"
          by (simp add: od_set_lookup Cons.prems(2))
        ultimately have "rel_sum (=)
            (\<lambda>r r'. set (fst r) = set (fst r') \<and> map_of (snd r) = map_of (snd r'))
            (build_loop files (key # u) (od_set g ?cat (od_set m key item)))
            (build_loop files (key # u') (od_set g' ?cat (od_set m key item)))"
          by (rule Cons.IH)
        with Some some' Inr ku sk' bi u1 u1' show ?thesis
          by (simp add: od_get_def)
      qed
    qed
  qed
qed

lemma assemble_from_cong:
  assumes "set u = set u'" and "map_of g = map_of g'"
  shows "assemble_from u g files = assemble_from u' g' files"
proof -
  note rel = build_loop_cong [OF assms, of files]
  show ?thesis
  proof (cases "build_loop files u g")
    case (Inl err)
    with rel have "build_loop files u' g' = Inl err"
      by (cases "build_loop files u' g'") simp_all
    with Inl show ?thesis by (simp add: assemble_from_def)
  next
    case (Inr r)
    with rel obtain r' where r': "build_loop files u' g' = Inr r'"
      and m: "map_of (snd r) = map_of (snd r')"
      by (cases "build_loop files u' g'") auto
    from category_pairs_cong [OF m]
    have "category_pairs CATEGORY_ORDER (snd r) = category_pairs CATEGORY_ORDER (snd r')" .
    with Inr r' show ?thesis
      by (cases r, cases r') (simp add: assemble_from_def)
  qed
qed

lemma build_loop_append:
  "build_loop (xs @ ys) u g =
     (case build_loop xs u g of Inl err \<Rightarrow> Inl err | Inr r \<Rightarrow> build_loop ys (fst r) (snd r))"
proof (induction xs arbitrary: u g)
  case Nil
  show ?case by simp
next
  case (Cons f xs)
  show ?case
    by (simp add: Cons.IH Let_def split: sum.splits prod.splits)
qed

text \<open>
  C1. The assembled document is a function of the list of records alone. Its only
  unordered structures are the set of keys in use and the dictionary of the categories;
  the result is the same for any two states that hold the same keys as sets and the same
  categories as mappings, whatever their internal order, so no order of a hash table
  enters the keys, the categories or the order of the properties. The keys given to the
  first records of a list do not depend on the records after them: the loop over a list
  followed by another is the loop over the first, continued from its state.
\<close>

theorem assemble_deterministic:
  "(set u = set u' \<and> map_of g = map_of g' \<longrightarrow>
      assemble_from u g files = assemble_from u' g' files)
   \<and> (set u = set u' \<longrightarrow>
        map_sum id fst (sanitize_key path u) = map_sum id fst (sanitize_key path u'))
   \<and> build_loop (xs @ ys) u g =
       (case build_loop xs u g of Inl err \<Rightarrow> Inl err | Inr r \<Rightarrow> build_loop ys (fst r) (snd r))
   \<and> build_yaml_data files =
       assemble_from [] [(''configuration'', []), (''artifacts'', []), (''docs'', []),
                         (''licenses'', []), (''general'', [])] files"
proof -
  have a: "set u = set u' \<and> map_of g = map_of g' \<longrightarrow>
      assemble_from u g files = assemble_from u' g' files"
    using assemble_from_cong [of u u' g g' files] by blast
  have b: "set u = set u' \<longrightarrow>
        map_sum id fst (sanitize_key path u) = map_sum id fst (sanitize_key path u')"
    using sanitize_key_cong [of u u' path] by blast
  have c: "build_yaml_data files =
       assemble_from [] [(''configuration'', []), (''artifacts'', []), (''docs'', []),
                         (''licenses'', []), (''general'', [])] files"
    unfolding build_yaml_data_def initial_grouping by (simp add: CATEGORY_ORDER_def)
  from a b c build_loop_append [of xs ys u g] show ?thesis by blast
qed

theorem assemble_deterministic_witness:
  "assemble_from [''etc_x'', ''root'']
       [(''configuration'', []), (''artifacts'', []), (''docs'', []), (''licenses'', []),
        (''general'', [])]
       [[(''path'', PStr ''/etc/x''), (''flags'', PList [PStr ''doc''])]]
     = assemble_from [''root'', ''etc_x'', ''root'']
       [(''general'', []), (''licenses'', []), (''docs'', []), (''artifacts'', []),
        (''configuration'', [])]
       [[(''path'', PStr ''/etc/x''), (''flags'', PList [PStr ''doc''])]]
   \<and> map_sum id fst (sanitize_key (PStr ''/etc/x'') [''etc_x'', ''root''])
       = map_sum id fst (sanitize_key (PStr ''/etc/x'') [''root'', ''etc_x'', ''root''])
   \<and> map_sum id fst (sanitize_key (PStr ''/etc/x'') [''etc_x'', ''root'']) = Inr ''etc_x_2''"
proof -
  let ?u = "[''etc_x'', ''root'']" and ?u' = "[''root'', ''etc_x'', ''root'']"
  let ?g = "[(''configuration'', []), (''artifacts'', []), (''docs'', []), (''licenses'', []),
             (''general'', [])] :: grouping"
  let ?g' = "[(''general'', []), (''licenses'', []), (''docs'', []), (''artifacts'', []),
              (''configuration'', [])] :: grouping"
  let ?fs = "[[(''path'', PStr ''/etc/x''), (''flags'', PList [PStr ''doc''])]]"
  have s: "set ?u = set ?u'" by auto
  have m: "map_of ?g = map_of ?g'" by (auto simp: fun_eq_iff)
  note th = assemble_deterministic [of ?u ?u' ?g ?g' ?fs "PStr ''/etc/x''" "[]" "[]"]
  from th s m have a: "assemble_from ?u ?g ?fs = assemble_from ?u' ?g' ?fs" by blast
  from th s have b: "map_sum id fst (sanitize_key (PStr ''/etc/x'') ?u)
       = map_sum id fst (sanitize_key (PStr ''/etc/x'') ?u')" by blast
  have c: "map_sum id fst (sanitize_key (PStr ''/etc/x'') ?u) = Inr ''etc_x_2''"
    by code_simp
  from a b c show ?thesis by blast
qed

end
